theory Spec2Isabelle
  imports Main "HOL-Library.Word" "HOL-Library.Char_ord" "HOL-Library.List_Lexorder"
begin

unbundle bit_operations_syntax

section \<open>Shared data model (WiperfUtility.hpp, DataTransfer.hpp)\<close>

type_synonym u8 = "8 word"
type_synonym u16 = "16 word"
type_synonym u32 = "32 word"
type_synonym u64 = "64 word"

text \<open>
  \<^verbatim>\<open>struct IfaceInfo\<close>. The field \<^verbatim>\<open>sockaddrSrv\<close> is the binary form of
  \<^verbatim>\<open>addrSrv\<close> and the server port and is left out; \<^verbatim>\<open>sockfd\<close> is a C \<^verbatim>\<open>int\<close>.
\<close>

record IfaceInfo =
  addrSrv :: string
  addrCli :: string
  sockfd :: int
  nbytesAcc :: u64
  ifaceId :: int

definition UNINITIALIZED_FD :: int where
  "UNINITIALIZED_FD = -1"

text \<open>
  \<^verbatim>\<open>std::map<std::string, V>\<close>: an association list kept in increasing key order
  (\<^verbatim>\<open>std::string\<close> compares bytes lexicographically), which is the order a range-for
  visits it in.
\<close>

type_synonym 'v strmap = "(string \<times> 'v) list"

type_synonym IfaceInfoMap = "IfaceInfo strmap"

fun map_find :: "string \<Rightarrow> 'v strmap \<Rightarrow> 'v option" where
  "map_find k [] = None"
| "map_find k ((k', v) # m) = (if k = k' then Some v else map_find k m)"

text \<open>\<^verbatim>\<open>std::map::insert\<close>: an existing key keeps its value.\<close>

fun map_insert :: "string \<Rightarrow> 'v \<Rightarrow> 'v strmap \<Rightarrow> 'v strmap" where
  "map_insert k v [] = [(k, v)]"
| "map_insert k v ((k', v') # m) =
     (if k = k' then (k', v') # m
      else if k < k' then (k, v) # (k', v') # m
      else (k', v') # map_insert k v m)"

text \<open>Assignment through an iterator or a reference to an existing entry.\<close>

fun map_modify :: "string \<Rightarrow> ('v \<Rightarrow> 'v) \<Rightarrow> 'v strmap \<Rightarrow> 'v strmap" where
  "map_modify k f [] = []"
| "map_modify k f ((k', v) # m) =
     (if k = k' then (k', f v) # m else (k', v) # map_modify k f m)"

text \<open>
  What the process does to the outside world, in order: \<^verbatim>\<open>close(fd)\<close>,
  \<^verbatim>\<open>eventfd_write(fd, n)\<close> and the calls of the logging macros.
\<close>

datatype LogLevel = FATAL | ERROR | WARN | MSG | VERBOSE

datatype effect = Close int | EventfdWrite int nat | Log LogLevel string

section \<open>Failures\<close>

text \<open>
  A C++ exception by its type (\<^verbatim>\<open>throw "text"\<close> throws a \<^verbatim>\<open>char const*\<close>),
  \<^verbatim>\<open>exit(n)\<close>, and undefined behaviour (an end iterator dereferenced, a read or write
  outside a buffer). A function that can fail returns \<open>failure + 'a\<close>.
\<close>

datatype exn =
    runtime_error string
  | char_const_ptr string
  | invalid_argument string
  | out_of_range string
  | bad_array_new_length

datatype failure = Thrown exn | Exit int | Undefined string

section \<open>ConfigFile (configfile.cc)\<close>

text \<open>
  The parsed file: \<^verbatim>\<open>content_\<close> maps \<^verbatim>\<open>section + '/' + name\<close> to the trimmed value.
  A file that cannot be opened leaves it empty.
\<close>

record ConfigFile =
  content :: "string strmap"
  sections :: "string list"

text \<open>\<^verbatim>\<open>ConfigFile::Value(section, entry)\<close>.\<close>

definition Value :: "ConfigFile \<Rightarrow> string \<Rightarrow> string \<Rightarrow> failure + string" where
  "Value cfile section entry =
     (case map_find (section @ ''/'' @ entry) (content cfile) of
        None \<Rightarrow> Inl (Thrown (runtime_error ''does not exist''))
      | Some v \<Rightarrow> Inr v)"

section \<open>Library functions used by the configuration readers\<close>

text \<open>\<^verbatim>\<open>isspace\<close> and \<^verbatim>\<open>isdigit\<close> in the C locale.\<close>

definition isspace :: "char \<Rightarrow> bool" where
  "isspace c = (c \<in> set [CHR '' '', CHR 0x09, CHR 0x0A, CHR 0x0B, CHR 0x0C, CHR 0x0D])"

definition isdigit :: "char \<Rightarrow> bool" where
  "isdigit c = (c \<in> set ''0123456789'')"

definition digits_value :: "string \<Rightarrow> int" where
  "digits_value ds = foldl (\<lambda>acc c. acc * 10 + (int (of_char c) - 48)) 0 ds"

text \<open>
  \<^verbatim>\<open>std::stoi(str)\<close>: leading white space, an optional sign, decimal digits; the rest
  of the string is ignored. No digit throws \<^verbatim>\<open>std::invalid_argument\<close>, a value outside
  \<^verbatim>\<open>int\<close> throws \<^verbatim>\<open>std::out_of_range\<close>.
\<close>

definition stoi :: "string \<Rightarrow> failure + int" where
  "stoi str =
     (let s1 = dropWhile isspace str;
          neg = (s1 \<noteq> [] \<and> hd s1 = CHR ''-'');
          s2 = (if s1 \<noteq> [] \<and> (hd s1 = CHR ''-'' \<or> hd s1 = CHR ''+'') then tl s1 else s1);
          ds = takeWhile isdigit s2;
          v = (if neg then - digits_value ds else digits_value ds)
      in if ds = [] then Inl (Thrown (invalid_argument ''stoi''))
         else if v < - (2 ^ 31) \<or> 2 ^ 31 \<le> v then Inl (Thrown (out_of_range ''stoi''))
         else Inr v)"

text \<open>
  \<^verbatim>\<open>std::getline(stream >> std::ws, token, delim)\<close> on the rest \<open>s\<close> of a stream:
  \<open>None\<close> when only white space is left, otherwise the token and the rest after the
  delimiter.
\<close>

definition getline_ws :: "char \<Rightarrow> string \<Rightarrow> (string \<times> string) option" where
  "getline_ws delim s =
     (let s1 = dropWhile isspace s
      in if s1 = [] then None
         else Some (takeWhile (\<lambda>c. c \<noteq> delim) s1, drop 1 (dropWhile (\<lambda>c. c \<noteq> delim) s1)))"

section \<open>WiperfUtility: configuration (WiperfUtility.cc)\<close>

definition LOG_LEVEL_DEF :: LogLevel where
  "LOG_LEVEL_DEF = ERROR"

definition NLOG_LEVELS :: int where
  "NLOG_LEVELS = 5"

definition LogLevel_of_int :: "int \<Rightarrow> LogLevel" where
  "LogLevel_of_int n =
     (if n = 0 then FATAL else if n = 1 then ERROR else if n = 2 then WARN
      else if n = 3 then MSG else VERBOSE)"

definition PORT_CLI_DEF :: u16 where "PORT_CLI_DEF = 44443"
definition PORT_SRV_DEF :: u16 where "PORT_SRV_DEF = 44444"
definition PORT_FEED_CLI_DEF :: u16 where "PORT_FEED_CLI_DEF = 44445"
definition PORT_FEED_SRV_DEF :: u16 where "PORT_FEED_SRV_DEF = 44446"
definition IFACES_STR_DEF :: string where "IFACES_STR_DEF = ''lo 127.0.0.1''"
definition FEEDBACK_INTERVAL_DEF :: int where "FEEDBACK_INTERVAL_DEF = 100"

text \<open>
  The readers return their value, or the failure that leaves them, together with what
  they logged. Each \<^verbatim>\<open>try\<close> block has the one handler \<^verbatim>\<open>catch (char const* str)\<close>:
  it takes a thrown \<^verbatim>\<open>char const*\<close> and lets every other exception pass.
\<close>

type_synonym 'a logged = "(failure + 'a) \<times> effect list"

text \<open>\<^verbatim>\<open>WiperfUtility::readAndSetLogLevel\<close>.\<close>

definition readAndSetLogLevel :: "ConfigFile \<Rightarrow> string \<Rightarrow> LogLevel logged" where
  "readAndSetLogLevel cfile secName =
     (case Value cfile secName ''log-level'' of
        Inl (Thrown (char_const_ptr str)) \<Rightarrow>
          (Inr LOG_LEVEL_DEF,
           [Log ERROR (''Config exception: value=log-level, '' @ str @ '' using default value''),
            Log MSG ''Starting program...''])
      | Inl f \<Rightarrow> (Inl f, [])
      | Inr v \<Rightarrow>
          (case stoi v of
             Inl (Thrown (char_const_ptr str)) \<Rightarrow>
               (Inr LOG_LEVEL_DEF,
                [Log ERROR (''Config exception: value=log-level, '' @ str @ '' using default value''),
                 Log MSG ''Starting program...''])
           | Inl f \<Rightarrow> (Inl f, [])
           | Inr logLevelInt \<Rightarrow>
               if logLevelInt \<ge> 0 \<and> logLevelInt < NLOG_LEVELS
               then (Inr (LogLevel_of_int logLevelInt), [Log MSG ''Starting program...''])
               else (Inr LOG_LEVEL_DEF,
                     [Log ERROR ''Config exception: value=log-level, invalid value. Reverting to default'',
                      Log MSG ''Starting program...''])))"

text \<open>\<^verbatim>\<open>WiperfUtility::readPort\<close>.\<close>

definition readPort :: "ConfigFile \<Rightarrow> string \<Rightarrow> u16 \<Rightarrow> u16 logged" where
  "readPort cfile secName defPort =
     (case Value cfile secName ''port'' of
        Inl (Thrown (char_const_ptr str)) \<Rightarrow>
          (Inr defPort, [Log ERROR (''Config exception: value=port:'' @ str @ '' using default value'')])
      | Inl f \<Rightarrow> (Inl f, [])
      | Inr v \<Rightarrow>
          (case stoi v of
             Inl (Thrown (char_const_ptr str)) \<Rightarrow>
               (Inr defPort,
                [Log ERROR (''Config exception: value=port:'' @ str @ '' using default value'')])
           | Inl f \<Rightarrow> (Inl f, [])
           | Inr portv \<Rightarrow>
               if portv \<ge> 1024 \<and> portv \<le> 49151
               then (Inr (word_of_int portv), [])
               else (Inr defPort,
                     [Log ERROR ''Config exception: value=port, invalid value. Acceptable range is (1024, 49151). Reverting to default''])))"

datatype AddrType = CLIENT | SERVER

text \<open>
  The \<^verbatim>\<open>ifaces\<close> string is cut at commas; each entry is cut at spaces into a name and
  an address.
\<close>

function split_entries :: "string \<Rightarrow> string list" where
  "split_entries s =
     (case getline_ws CHR '','' s of
        None \<Rightarrow> []
      | Some (ientry, rest) \<Rightarrow> ientry # split_entries rest)"
  by pat_completeness auto
termination
proof (relation "measure length")
  show "wf (measure length)" by simp
next
  fix s :: string and x2 x y
  assume "getline_ws CHR '','' s = Some x2" and "(x, y) = x2"
  then obtain s1 where s1: "s1 = dropWhile isspace s" "s1 \<noteq> []"
    and y: "y = drop 1 (dropWhile (\<lambda>c. c \<noteq> CHR '','') s1)"
    by (auto simp: getline_ws_def Let_def split: if_splits)
  have "length (dropWhile (\<lambda>c. c \<noteq> CHR '','') s1) \<le> length s1"
    by (rule length_dropWhile_le)
  moreover have "0 < length s1"
    using s1(2) by simp
  ultimately have "length y < length s1"
    unfolding y length_drop by linarith
  also have "length s1 \<le> length s"
    unfolding s1(1) by (rule length_dropWhile_le)
  finally show "(y, s) \<in> measure length" by simp
qed

text \<open>
  One entry of the loop body of \<^verbatim>\<open>WiperfUtility::readIfaces\<close>, with the counter
  \<^verbatim>\<open>i\<close>: the new table, the new counter and the messages logged. \<open>inet_pton\<close> stands
  for \<^verbatim>\<open>inet_pton(AF_INET, addr, ...) == 1\<close>. A new \<^verbatim>\<open>IfaceInfo\<close> has empty address
  strings; its byte counter is not initialised here, every role writes 0 to it before
  it is read, and the model holds 0 from the start.
\<close>

definition new_IfaceInfo :: "int \<Rightarrow> IfaceInfo" where
  "new_IfaceInfo i =
     \<lparr>addrSrv = [], addrCli = [], sockfd = UNINITIALIZED_FD, nbytesAcc = 0, ifaceId = i\<rparr>"

definition readIfaces_entry ::
  "(string \<Rightarrow> bool) \<Rightarrow> AddrType \<Rightarrow> string \<Rightarrow> IfaceInfoMap \<times> int \<times> effect list
     \<Rightarrow> IfaceInfoMap \<times> int \<times> effect list" where
  "readIfaces_entry inet_pton addrType ientry st =
     (case st of (m, i, logs) \<Rightarrow>
        (case getline_ws CHR '' '' ientry of
           None \<Rightarrow> (m, i, logs @ [Log ERROR ''Config exception: value=ifaces. Invalid interface entry. Ignoring.''])
         | Some (iname, rest) \<Rightarrow>
             (case getline_ws CHR '' '' rest of
                Some (iaddr, _) \<Rightarrow>
                  if inet_pton iaddr
                  then (let m1 = (if map_find iname m = None
                                  then map_insert iname (new_IfaceInfo i) m else m);
                            m2 = (if addrType = SERVER
                                  then map_modify iname (\<lambda>info. info\<lparr>addrSrv := iaddr\<rparr>) m1
                                  else map_modify iname (\<lambda>info. info\<lparr>addrCli := iaddr\<rparr>) m1)
                        in (m2, i + 1, logs))
                  else (m, i + 1, logs @ [Log ERROR ''Config exception: value=ifaces. Invalid IP address. Ignoring entry.''])
              | None \<Rightarrow>
                  (m, i + 1, logs @ [Log ERROR ''Config exception: value=ifaces. Missing address for interface. Ignoring entry.'']))))"

text \<open>The \<^verbatim>\<open>ifaces\<close> value of a section, or the default when the handler runs.\<close>

definition read_ifacesStr :: "ConfigFile \<Rightarrow> string \<Rightarrow> string logged" where
  "read_ifacesStr cfile secName =
     (case Value cfile secName ''ifaces'' of
        Inl (Thrown (char_const_ptr str)) \<Rightarrow>
          (Inr IFACES_STR_DEF,
           [Log ERROR (''Config exception: value=ifaces '' @ str @ '' using default value'')])
      | Inl f \<Rightarrow> (Inl f, [])
      | Inr v \<Rightarrow> (Inr v, []))"

text \<open>\<^verbatim>\<open>WiperfUtility::readIfaces\<close>: the table is read and written in place.\<close>

definition readIfaces ::
  "(string \<Rightarrow> bool) \<Rightarrow> ConfigFile \<Rightarrow> string \<Rightarrow> AddrType \<Rightarrow> IfaceInfoMap \<Rightarrow> IfaceInfoMap logged" where
  "readIfaces inet_pton cfile secName addrType m =
     (case read_ifacesStr cfile secName of
        (Inl f, logs) \<Rightarrow> (Inl f, logs)
      | (Inr ifacesStr, logs) \<Rightarrow>
          (case foldl (\<lambda>st ientry. readIfaces_entry inet_pton addrType ientry st)
                  (m, 0, logs) (split_entries ifacesStr) of
             (m', _, logs') \<Rightarrow>
               if m' = []
               then (Inl (Exit 1),
                     logs' @ [Log FATAL ''Config exception: value=ifaces. No valid (interface name, address) pair provided''])
               else (Inr m', logs')))"

text \<open>\<^verbatim>\<open>WiperfUtility::readIfnames\<close>: the names of the entries, in the order written.\<close>

definition readIfnames_entry :: "string \<Rightarrow> string list \<times> effect list \<Rightarrow> string list \<times> effect list" where
  "readIfnames_entry ientry st =
     (case st of (ifnames, logs) \<Rightarrow>
        (case getline_ws CHR '' '' ientry of
           None \<Rightarrow> (ifnames, logs @ [Log ERROR ''Config exception: value=ifaces. Invalid interface entry. Ignoring.''])
         | Some (iname, _) \<Rightarrow> (ifnames @ [iname], logs)))"

definition readIfnames :: "ConfigFile \<Rightarrow> string \<Rightarrow> string list logged" where
  "readIfnames cfile secName =
     (case read_ifacesStr cfile secName of
        (Inl f, logs) \<Rightarrow> (Inl f, logs)
      | (Inr ifacesStr, logs) \<Rightarrow>
          (case foldl (\<lambda>st ientry. readIfnames_entry ientry st) ([], logs) (split_entries ifacesStr) of
             (ifnames, logs') \<Rightarrow>
               if ifnames = []
               then (Inl (Exit 1),
                     logs' @ [Log FATAL ''Config exception: value=ifaces. No valid interface name provided''])
               else (Inr ifnames, logs')))"

section \<open>DataReceiver: configuration (DataReceiver.cc)\<close>

text \<open>
  What \<^verbatim>\<open>DataReceiver::readConfig\<close> sets: the two ports, the interface table and the
  pending drains \<^verbatim>\<open>nbytes_reset_value\<close>.
\<close>

record DataReceiverConfig =
  portSrv :: u16
  portCli :: u16
  rxIfaceMap :: IfaceInfoMap
  nbytes_reset_value :: "u32 strmap"

text \<open>Sequencing of two steps that log: the first failure ends the sequence.\<close>

definition and_then :: "'a logged \<Rightarrow> ('a \<Rightarrow> 'b logged) \<Rightarrow> 'b logged" where
  "and_then r f =
     (case r of
        (Inl e, logs) \<Rightarrow> (Inl e, logs)
      | (Inr a, logs) \<Rightarrow> (case f a of (r', logs') \<Rightarrow> (r', logs @ logs')))"

text \<open>The entries that have both addresses; the others are erased.\<close>

definition erase_incomplete :: "IfaceInfoMap \<Rightarrow> IfaceInfoMap" where
  "erase_incomplete m = filter (\<lambda>kv. addrSrv (snd kv) \<noteq> [] \<and> addrCli (snd kv) \<noteq> []) m"

text \<open>The data-plane table as \<^verbatim>\<open>DataReceiver::readConfig\<close> builds it.\<close>

definition data_plane_ifaces :: "(string \<Rightarrow> bool) \<Rightarrow> ConfigFile \<Rightarrow> (u16 \<times> u16 \<times> IfaceInfoMap) logged" where
  "data_plane_ifaces inet_pton cfile =
     and_then (readPort cfile ''data-receiver'' PORT_SRV_DEF) (\<lambda>pSrv.
     and_then (readIfaces inet_pton cfile ''data-receiver'' SERVER []) (\<lambda>m1.
     and_then (readPort cfile ''data-sender'' PORT_CLI_DEF) (\<lambda>pCli.
     and_then (readIfaces inet_pton cfile ''data-sender'' CLIENT m1) (\<lambda>m2.
       (Inr (pSrv, pCli, erase_incomplete m2), [])))))"

definition DataReceiver_readConfig :: "(string \<Rightarrow> bool) \<Rightarrow> ConfigFile \<Rightarrow> DataReceiverConfig logged" where
  "DataReceiver_readConfig inet_pton cfile =
     and_then (readAndSetLogLevel cfile ''data-receiver'') (\<lambda>_.
     and_then (data_plane_ifaces inet_pton cfile) (\<lambda>(pSrv, pCli, m).
       if m = []
       then (Inl (Exit 1),
             [Log FATAL ''Config exception: section=data-receiver/data-sender, value=ifaces. Don't have any matching receiver/sender interface pairs.''])
       else (Inr \<lparr>portSrv = pSrv, portCli = pCli, rxIfaceMap = m,
                  nbytes_reset_value = map (\<lambda>kv. (fst kv, 0)) m\<rparr>, [])))"

text \<open>
  \<^verbatim>\<open>main\<close> of the receiver process up to the end of \<^verbatim>\<open>dreceiver.readConfig\<close>: an
  exception that nothing catches ends the process in \<^verbatim>\<open>std::terminate\<close>.
\<close>

datatype process_state = Running | Terminated failure

definition dreceiver_main_config :: "(string \<Rightarrow> bool) \<Rightarrow> ConfigFile \<Rightarrow> process_state \<times> effect list" where
  "dreceiver_main_config inet_pton cfile =
     (case DataReceiver_readConfig inet_pton cfile of
        (Inl f, logs) \<Rightarrow> (Terminated f, logs)
      | (Inr _, logs) \<Rightarrow> (Running, logs))"

text \<open>A configuration file without a \<^verbatim>\<open>port\<close> key, and one with only the port 80.\<close>

definition cfg_no_port :: ConfigFile where
  "cfg_no_port =
     \<lparr>content = [(''data-receiver/ifaces'', ''lo 127.0.0.1''),
                 (''data-receiver/log-level'', ''1''),
                 (''data-sender/ifaces'', ''lo 127.0.0.1'')],
      sections = [''data-receiver'', ''data-sender'']\<rparr>"

definition cfg_port_80 :: ConfigFile where
  "cfg_port_80 = \<lparr>content = [(''data-receiver/port'', ''80'')], sections = [''data-receiver'']\<rparr>"

section \<open>DataTransfer (DataTransfer.cc)\<close>

text \<open>\<^verbatim>\<open>class DataTransfer\<close>; the members \<^verbatim>\<open>endProgram_\<close> and \<^verbatim>\<open>wakefd_\<close> lose their trailing underscore.\<close>

record DataTransfer =
  endProgram :: bool
  wakefd :: int
  ifaceMap :: IfaceInfoMap
  effects :: "effect list"

text \<open>\<^verbatim>\<open>DataTransfer::stopThread\<close>.\<close>

definition stopThread :: "DataTransfer \<Rightarrow> DataTransfer" where
  "stopThread d =
     d\<lparr>endProgram := True,
       effects := effects d @ [Log MSG ''program killed'', EventfdWrite (wakefd d) 1]\<rparr>"

text \<open>
  \<^verbatim>\<open>DataTransfer::closeIfaceSocks\<close>: every entry whose \<^verbatim>\<open>sockfd\<close> is not
  \<^verbatim>\<open>UNINITIALIZED_FD\<close> is passed to \<^verbatim>\<open>close\<close>; the table itself is not written.
\<close>

definition socks_to_close :: "IfaceInfoMap \<Rightarrow> int list" where
  "socks_to_close m = filter (\<lambda>fd. fd \<noteq> UNINITIALIZED_FD) (map (\<lambda>kv. sockfd (snd kv)) m)"

definition closeIfaceSocks :: "DataTransfer \<Rightarrow> DataTransfer" where
  "closeIfaceSocks d = d\<lparr>effects := effects d @ map Close (socks_to_close (ifaceMap d))\<rparr>"

text \<open>The descriptors handed to \<^verbatim>\<open>close\<close> so far, oldest first.\<close>

fun closed_fds :: "effect list \<Rightarrow> int list" where
  "closed_fds [] = []"
| "closed_fds (Close fd # es) = fd # closed_fds es"
| "closed_fds (_ # es) = closed_fds es"

text \<open>An endpoint with one interface whose socket is descriptor 3.\<close>

definition lo_info :: IfaceInfo where
  "lo_info = \<lparr>addrSrv = ''127.0.0.1'', addrCli = ''127.0.0.1'', sockfd = 3,
               nbytesAcc = 0, ifaceId = 0\<rparr>"

definition one_open_socket :: DataTransfer where
  "one_open_socket =
     \<lparr>endProgram = False, wakefd = 4, ifaceMap = [(''lo'', lo_info)], effects = []\<rparr>"

section \<open>DataSender: the single-interface policy (DataSender.cc)\<close>

text \<open>
  An iterator is the part of the table from its position on; \<^verbatim>\<open>end()\<close> is the empty
  rest. \<^verbatim>\<open>for (int i = 0; i < idx; ++itr, i++);\<close> advances it \<open>idx\<close> times.
\<close>

fun advance :: "nat \<Rightarrow> 'v strmap \<Rightarrow> failure + 'v strmap" where
  "advance 0 itr = Inr itr"
| "advance (Suc n) [] = Inl (Undefined ''end iterator incremented'')"
| "advance (Suc n) (kv # itr) = advance n itr"

definition deref_first :: "'v strmap \<Rightarrow> failure + string" where
  "deref_first itr =
     (case itr of [] \<Rightarrow> Inl (Undefined ''end iterator dereferenced'') | kv # _ \<Rightarrow> Inr (fst kv))"

text \<open>
  \<^verbatim>\<open>DataSender::pickRandomIface\<close>. Every call builds a new engine from the seed
  123123123 and draws once from \<^verbatim>\<open>uniform_int_distribution<int>(0, size)\<close>, so the
  index drawn is a function \<open>draw\<close> of the upper bound alone; \<open>None\<close> is a draw that
  does not return.
\<close>

definition pickRandomIface :: "(int \<Rightarrow> int option) \<Rightarrow> IfaceInfoMap \<Rightarrow> (failure + string) option" where
  "pickRandomIface draw m =
     (case draw (int (length m)) of
        None \<Rightarrow> None
      | Some idx \<Rightarrow>
          Some (case advance (nat idx) m of
                  Inl f \<Rightarrow> Inl f
                | Inr itr \<Rightarrow> deref_first itr))"

text \<open>
  The draw as the GNU C++ library computes it: \<^verbatim>\<open>std::default_random_engine\<close> is
  \<^verbatim>\<open>minstd_rand0\<close> (\<open>x \<mapsto> 16807 x mod (2\<^sup>3\<^sup>1 - 1)\<close>, outputs from 1 to \<open>2\<^sup>3\<^sup>1 - 2\<close>), and
  the distribution divides the output, less 1, by \<open>scaling\<close>, drawing again while it is
  not below \<open>past\<close>.
\<close>

definition minstd_rand0 :: "int \<Rightarrow> int" where
  "minstd_rand0 x = (16807 * x) mod 2147483647"

partial_function (option) downscale :: "int \<Rightarrow> int \<Rightarrow> int \<Rightarrow> int option" where
  "downscale x scaling past =
     (let x' = minstd_rand0 x; ret = x' - 1
      in if ret \<ge> past then downscale x' scaling past else Some (ret div scaling))"

definition gnu_draw :: "int \<Rightarrow> int option" where
  "gnu_draw b =
     (let uerange = b + 1;
          scaling = 2147483645 div uerange;
          past = uerange * scaling
      in downscale 123123123 scaling past)"

text \<open>
  The end of \<^verbatim>\<open>DataSender::commThread\<close>, once the stop has ended the sending loops:
  \<^verbatim>\<open>sendEveryInterface\<close> (decision level 0) joins its workers and calls
  \<^verbatim>\<open>closeIfaceSocks\<close> (DataSender.cc 119), \<^verbatim>\<open>sendOneInterface\<close> just returns, and then
  \<^verbatim>\<open>commThread\<close> itself calls \<^verbatim>\<open>closeIfaceSocks\<close> (DataSender.cc 222).
\<close>

definition sendEveryInterface_end :: "DataTransfer \<Rightarrow> DataTransfer" where
  "sendEveryInterface_end d = closeIfaceSocks d"

definition DataSender_commThread_end :: "int \<Rightarrow> DataTransfer \<Rightarrow> DataTransfer" where
  "DataSender_commThread_end decisionLevel d =
     closeIfaceSocks (if decisionLevel = 0 then sendEveryInterface_end d else d)"

section \<open>The byte counter between receiver worker and FeedbackSender\<close>

text \<open>
  One interface: \<open>acc\<close> is \<^verbatim>\<open>iinfo.nbytesAcc\<close>, \<open>pending\<close> is
  \<^verbatim>\<open>nbytes_reset_value[ifname]\<close>, and \<open>snapshot\<close> is the entry of the interface in the
  \<^verbatim>\<open>nbytesMap\<close> of the FeedbackSender's running cycle (none outside the two loops).
\<close>

record Handoff =
  acc :: u64
  pending :: u32
  snapshot :: "u32 option"

text \<open>
  The statements that touch them, each taken as one step; no lock is held around any
  of them.
  \<^item> \<open>WorkerRecv n\<close>: \<^verbatim>\<open>iinfo.nbytesAcc += nbytes\<close> for a datagram of \<open>n > 0\<close> bytes
    (DataReceiver.cc 176-177);
  \<^item> \<open>WorkerDrain\<close>: the \<^verbatim>\<open>if (itr_nbytes->second > 0)\<close> block (DataReceiver.cc 168-173);
  \<^item> \<open>FeedbackRead\<close>: the loop that fills \<^verbatim>\<open>nbytesMap\<close> (FeedbackSender.cc 165-168);
  \<^item> \<open>FeedbackWrite\<close>: the loop that writes \<^verbatim>\<open>nbytes_reset_value\<close> from
    \<^verbatim>\<open>nbytesMap\<close> (FeedbackSender.cc 172-175); it runs only after \<open>FeedbackRead\<close>.
\<close>

datatype event = WorkerRecv int | WorkerDrain | FeedbackRead | FeedbackWrite

definition RCV_BUF_LEN :: int where
  "RCV_BUF_LEN = 524288"

fun step :: "Handoff \<Rightarrow> event \<Rightarrow> Handoff option" where
  "step h (WorkerRecv n) =
     (if 0 < n \<and> n \<le> RCV_BUF_LEN then Some (h\<lparr>acc := acc h + word_of_int n\<rparr>) else None)"
| "step h WorkerDrain =
     Some (if pending h > 0 then h\<lparr>acc := acc h - ucast (pending h), pending := 0\<rparr> else h)"
| "step h FeedbackRead = Some (h\<lparr>snapshot := Some (ucast (acc h))\<rparr>)"
| "step h FeedbackWrite =
     (case snapshot h of
        None \<Rightarrow> None
      | Some v \<Rightarrow> Some (h\<lparr>pending := v, snapshot := None\<rparr>))"

fun run :: "Handoff \<Rightarrow> event list \<Rightarrow> Handoff option" where
  "run h [] = Some h"
| "run h (e # es) = (case step h e of None \<Rightarrow> None | Some h' \<Rightarrow> run h' es)"

text \<open>
  The bytes received and the amounts subtracted along a run, as unbounded integers.
\<close>

fun received :: "event list \<Rightarrow> int" where
  "received [] = 0"
| "received (WorkerRecv n # es) = n + received es"
| "received (_ # es) = received es"

fun drained :: "Handoff \<Rightarrow> event list \<Rightarrow> int" where
  "drained h [] = 0"
| "drained h (e # es) =
     (case step h e of
        None \<Rightarrow> 0
      | Some h' \<Rightarrow> (if e = WorkerDrain then uint (pending h) else 0) + drained h' es)"

definition handoff_init :: Handoff where
  "handoff_init = \<lparr>acc = 0, pending = 0, snapshot = None\<rparr>"

text \<open>
  A schedule: cycle 1 reads and publishes 100; the worker applies that drain only
  after cycle 2 has read 150 and before cycle 2 publishes it.
\<close>

definition late_drain :: "event list" where
  "late_drain =
     [WorkerRecv 100, FeedbackRead, FeedbackWrite,
      WorkerRecv 50, FeedbackRead, WorkerDrain, FeedbackWrite]"

text \<open>
  The schedules in which the two loops of the FeedbackSender run with nothing between
  them, as they would under a lock shared with the worker.
\<close>

datatype cycle_event = Recv int | Drain | Feedback

fun with_lock :: "cycle_event list \<Rightarrow> event list" where
  "with_lock [] = []"
| "with_lock (Recv n # cs) = WorkerRecv n # with_lock cs"
| "with_lock (Drain # cs) = WorkerDrain # with_lock cs"
| "with_lock (Feedback # cs) = FeedbackRead # FeedbackWrite # with_lock cs"

section \<open>Integers in memory and on the wire\<close>

text \<open>
  The bytes of an integer from the least significant one, and back. \<open>le\<close> says that
  the host is little-endian: \<^verbatim>\<open>memcpy\<close> out of an integer (\<open>store\<close>) gives these bytes
  in this order on such a host and in the opposite order on a big-endian one, and
  \<^verbatim>\<open>memcpy\<close> into an integer (\<open>load\<close>) reads them the same way.
\<close>

definition u32_le_bytes :: "u32 \<Rightarrow> u8 list" where
  "u32_le_bytes w = [ucast w, ucast (drop_bit 8 w), ucast (drop_bit 16 w), ucast (drop_bit 24 w)]"

fun u32_of_le_bytes :: "u8 list \<Rightarrow> u32" where
  "u32_of_le_bytes [] = 0"
| "u32_of_le_bytes (b # bs) = ucast b OR push_bit 8 (u32_of_le_bytes bs)"

definition u64_le_bytes :: "u64 \<Rightarrow> u8 list" where
  "u64_le_bytes w =
     [ucast w, ucast (drop_bit 8 w), ucast (drop_bit 16 w), ucast (drop_bit 24 w),
      ucast (drop_bit 32 w), ucast (drop_bit 40 w), ucast (drop_bit 48 w), ucast (drop_bit 56 w)]"

fun u64_of_le_bytes :: "u8 list \<Rightarrow> u64" where
  "u64_of_le_bytes [] = 0"
| "u64_of_le_bytes (b # bs) = ucast b OR push_bit 8 (u64_of_le_bytes bs)"

definition store_u32 :: "bool \<Rightarrow> u32 \<Rightarrow> u8 list" where
  "store_u32 le w = (if le then u32_le_bytes w else rev (u32_le_bytes w))"

definition load_u32 :: "bool \<Rightarrow> u8 list \<Rightarrow> u32" where
  "load_u32 le bs = u32_of_le_bytes (if le then bs else rev bs)"

definition store_u64 :: "bool \<Rightarrow> u64 \<Rightarrow> u8 list" where
  "store_u64 le w = (if le then u64_le_bytes w else rev (u64_le_bytes w))"

definition load_u64 :: "bool \<Rightarrow> u8 list \<Rightarrow> u64" where
  "load_u64 le bs = u64_of_le_bytes (if le then bs else rev bs)"

text \<open>Network byte order: the most significant byte first.\<close>

definition be32 :: "u32 \<Rightarrow> u8 list" where
  "be32 w = rev (u32_le_bytes w)"

definition be64 :: "u64 \<Rightarrow> u8 list" where
  "be64 w = rev (u64_le_bytes w)"

text \<open>
  \<^verbatim>\<open>htonl\<close> and \<^verbatim>\<open>ntohl\<close> of the C library: the bytes are swapped on a little-endian
  host and kept on a big-endian one.
\<close>

definition bswap32 :: "u32 \<Rightarrow> u32" where
  "bswap32 w = u32_of_le_bytes (rev (u32_le_bytes w))"

definition htonl :: "bool \<Rightarrow> u32 \<Rightarrow> u32" where
  "htonl le w = (if le then bswap32 w else w)"

definition ntohl :: "bool \<Rightarrow> u32 \<Rightarrow> u32" where
  "ntohl le w = (if le then bswap32 w else w)"

text \<open>
  \<^verbatim>\<open>WiperfUtility::htonll\<close> and \<^verbatim>\<open>WiperfUtility::ntohll\<close>; the test on the first
  byte of the constant 42 is the test for a little-endian host.
\<close>

definition htonll :: "bool \<Rightarrow> u64 \<Rightarrow> u64" where
  "htonll le v =
     (if le
      then (let high_part = htonl le (ucast (drop_bit 32 v));
                low_part = htonl le (ucast (v AND 0xFFFFFFFF))
            in push_bit 32 (ucast low_part) OR ucast high_part)
      else v)"

definition ntohll :: "bool \<Rightarrow> u64 \<Rightarrow> u64" where
  "ntohll le v =
     (if le
      then (let high_part = ntohl le (ucast (drop_bit 32 v));
                low_part = ntohl le (ucast (v AND 0xFFFFFFFF))
            in push_bit 32 (ucast low_part) OR ucast high_part)
      else v)"

text \<open>
  \<^verbatim>\<open>memcpy\<close> into and out of a byte buffer of known length; outside the buffer the
  behaviour is undefined.
\<close>

definition memcpy_to :: "u8 list \<Rightarrow> nat \<Rightarrow> u8 list \<Rightarrow> failure + u8 list" where
  "memcpy_to buffer off src =
     (if off + length src \<le> length buffer
      then Inr (take off buffer @ src @ drop (off + length src) buffer)
      else Inl (Undefined ''write outside the buffer''))"

definition memcpy_from :: "u8 list \<Rightarrow> nat \<Rightarrow> nat \<Rightarrow> failure + u8 list" where
  "memcpy_from buffer off n =
     (if off + n \<le> length buffer
      then Inr (take n (drop off buffer))
      else Inl (Undefined ''read outside the buffer''))"

section \<open>FeedbackSender: one cycle (FeedbackSender.cc)\<close>

text \<open>
  \<^verbatim>\<open>struct FeedbackMessageStruct\<close>; the fields carry the prefix \<open>fm_\<close>, their names
  being those of \<^verbatim>\<open>DatabaseInfo\<close> as well.
\<close>

record FeedbackMessageStruct =
  fm_timestamp :: u64
  fm_throughput :: u32
  fm_ifaceName :: string
  fm_message :: "u8 list"

text \<open>What \<^verbatim>\<open>commThread\<close> keeps from one cycle to the next.\<close>

record FeedbackSender =
  tm2Info :: "FeedbackMessageStruct strmap"
  tm1Info :: "FeedbackMessageStruct strmap"
  tInfo :: "FeedbackMessageStruct strmap"
  sleepingInterval :: u64

text \<open>
  \<^verbatim>\<open>feedbackInterval - (clock % feedbackInterval)\<close>, computed before the loop and at
  the end of every cycle; \<^verbatim>\<open>feedbackInterval\<close> is an \<^verbatim>\<open>int\<close> and the clock a
  \<^verbatim>\<open>uint64_t\<close>, so the arithmetic is that of \<^verbatim>\<open>uint64_t\<close>.
\<close>

definition next_sleepingInterval :: "int \<Rightarrow> u64 \<Rightarrow> u64" where
  "next_sleepingInterval feedbackInterval clock =
     word_of_int feedbackInterval - clock mod word_of_int feedbackInterval"

text \<open>The first loop: \<^verbatim>\<open>nbytesMap\<close>, each counter cut to 32 bits.\<close>

definition read_nbytesMap :: "IfaceInfoMap \<Rightarrow> u32 strmap" where
  "read_nbytesMap rx = foldl (\<lambda>m kv. map_insert (fst kv) (ucast (nbytesAcc (snd kv))) m) [] rx"

text \<open>The second loop: every pending drain is set from \<^verbatim>\<open>nbytesMap\<close>.\<close>

fun write_reset_values :: "u32 strmap \<Rightarrow> u32 strmap \<Rightarrow> failure + u32 strmap" where
  "write_reset_values nbytesMap [] = Inr []"
| "write_reset_values nbytesMap ((k, v) # reset) =
     (case map_find k nbytesMap of
        None \<Rightarrow> Inl (Undefined ''end iterator dereferenced'')
      | Some n \<Rightarrow>
          (case write_reset_values nbytesMap reset of
             Inl f \<Rightarrow> Inl f
           | Inr reset' \<Rightarrow> Inr ((k, n) # reset')))"

text \<open>\<^verbatim>\<open>(nbytes * 8) / sleepingInterval\<close>: a 32-bit product, a 64-bit quotient, cut to 32 bits.\<close>

definition throughput_of :: "u32 \<Rightarrow> u64 \<Rightarrow> u32" where
  "throughput_of nbytes sleeping = ucast ((ucast (nbytes * 8) :: u64) div sleeping)"

text \<open>The 12 bytes \<^verbatim>\<open>currInfo\<close>.\<close>

definition currInfo_bytes :: "bool \<Rightarrow> u64 \<Rightarrow> u32 \<Rightarrow> u8 list" where
  "currInfo_bytes le timestamp throughput =
     store_u64 le (htonll le timestamp) @ store_u32 le (htonl le throughput)"

text \<open>
  The body of the loop over \<^verbatim>\<open>dataReceiverIfnames\<close> for the name \<open>ifname\<close> and the
  counter \<open>i\<close>: the buffer and \<^verbatim>\<open>tInfo\<close> after it.
\<close>

definition report_block ::
  "bool \<Rightarrow> u64 \<Rightarrow> u64 \<Rightarrow> u32 strmap \<Rightarrow> FeedbackMessageStruct strmap \<Rightarrow> FeedbackMessageStruct strmap
     \<Rightarrow> string \<Rightarrow> u32 \<Rightarrow> u8 list \<times> FeedbackMessageStruct strmap
     \<Rightarrow> failure + (u8 list \<times> FeedbackMessageStruct strmap)" where
  "report_block le timestamp sleeping nbytesMap tm1 tm2 ifname i st =
     (case st of (buffer, tI) \<Rightarrow>
      let offset = 4 + 40 * i
      in case map_find ifname nbytesMap of
           None \<Rightarrow> Inl (Undefined ''end iterator dereferenced'')
         | Some nbytes \<Rightarrow>
             if sleeping = 0 then Inl (Undefined ''division by zero'')
             else
               let throughput = throughput_of nbytes sleeping;
                   currInfo = currInfo_bytes le timestamp throughput
               in case memcpy_to buffer (unat offset) (store_u32 le i) of
                    Inl f \<Rightarrow> Inl f
                  | Inr b1 \<Rightarrow>
                 (case memcpy_to b1 (unat (offset + 4)) currInfo of
                    Inl f \<Rightarrow> Inl f
                  | Inr b2 \<Rightarrow>
                 (case (if tm1 \<noteq> []
                        then (case map_find ifname tm1 of
                                None \<Rightarrow> Inr b2
                              | Some m1 \<Rightarrow>
                                  (case memcpy_to b2 (unat (offset + 4 + 12)) (fm_message m1) of
                                     Inl f \<Rightarrow> Inl f
                                   | Inr b3 \<Rightarrow>
                                       if tm2 \<noteq> []
                                       then (case map_find ifname tm2 of
                                               None \<Rightarrow> Inr b3
                                             | Some m2 \<Rightarrow>
                                                 memcpy_to b3 (unat (offset + 4 + 24)) (fm_message m2))
                                       else Inr b3))
                        else Inr b2) of
                    Inl f \<Rightarrow> Inl f
                  | Inr b4 \<Rightarrow>
                      Inr (b4,
                           map_insert ifname
                             \<lparr>fm_timestamp = timestamp, fm_throughput = throughput,
                              fm_ifaceName = ifname, fm_message = currInfo\<rparr> tI))))"

fun report_blocks ::
  "bool \<Rightarrow> u64 \<Rightarrow> u64 \<Rightarrow> u32 strmap \<Rightarrow> FeedbackMessageStruct strmap \<Rightarrow> FeedbackMessageStruct strmap
     \<Rightarrow> string list \<Rightarrow> u32 \<Rightarrow> u8 list \<times> FeedbackMessageStruct strmap
     \<Rightarrow> failure + (u8 list \<times> FeedbackMessageStruct strmap)" where
  "report_blocks le timestamp sleeping nbytesMap tm1 tm2 [] i st = Inr st"
| "report_blocks le timestamp sleeping nbytesMap tm1 tm2 (ifname # rest) i st =
     (case report_block le timestamp sleeping nbytesMap tm1 tm2 ifname i st of
        Inl f \<Rightarrow> Inl f
      | Inr st' \<Rightarrow> report_blocks le timestamp sleeping nbytesMap tm1 tm2 rest (i + 1) st')"

text \<open>
  One pass of the \<^verbatim>\<open>while\<close> loop of \<^verbatim>\<open>FeedbackSender::commThread\<close> up to the
  \<^verbatim>\<open>sendto\<close>: \<open>now\<close> is the clock in milliseconds, \<open>rx\<close> the receiver's table as
  \<^verbatim>\<open>getIfaceInfoMap\<close> returns it, \<open>reset\<close> the receiver's \<^verbatim>\<open>nbytes_reset_value\<close>.
  The result is the report, the sender's state and the new \<^verbatim>\<open>nbytes_reset_value\<close>.
\<close>

definition build_report ::
  "bool \<Rightarrow> int \<Rightarrow> string list \<Rightarrow> u64 \<Rightarrow> IfaceInfoMap \<Rightarrow> u32 strmap \<Rightarrow> FeedbackSender
     \<Rightarrow> failure + (u8 list \<times> FeedbackSender \<times> u32 strmap)" where
  "build_report le feedbackInterval dataReceiverIfnames now rx reset fs =
     (if (word_of_int feedbackInterval :: u64) = 0 then Inl (Undefined ''division by zero'')
      else
        let timestamp = now - now mod word_of_int feedbackInterval;
            nbytesMap = read_nbytesMap rx
        in case write_reset_values nbytesMap reset of
             Inl f \<Rightarrow> Inl f
           | Inr reset' \<Rightarrow>
               let tm2 = tm1Info fs;
                   tm1 = tInfo fs;
                   numRats = (of_nat (length dataReceiverIfnames) :: u32);
                   bufferSize = sint (4 + numRats * 40)
               in if bufferSize < 0 then Inl (Thrown bad_array_new_length)
                  else
                    (case memcpy_to (replicate (nat bufferSize) 0) 0 (store_u32 le (htonl le numRats)) of
                       Inl f \<Rightarrow> Inl f
                     | Inr buffer \<Rightarrow>
                         (case report_blocks le timestamp (sleepingInterval fs) nbytesMap tm1 tm2
                                 dataReceiverIfnames 0 (buffer, []) of
                            Inl f \<Rightarrow> Inl f
                          | Inr (buffer', tI) \<Rightarrow>
                              Inr (buffer', fs\<lparr>tm2Info := tm2, tm1Info := tm1, tInfo := tI\<rparr>, reset'))))"

text \<open>The end of the pass: the next sleeping interval from the clock read after the send.\<close>

definition end_of_cycle :: "int \<Rightarrow> u64 \<Rightarrow> FeedbackSender \<Rightarrow> FeedbackSender" where
  "end_of_cycle feedbackInterval endTimestamp fs =
     fs\<lparr>sleepingInterval := next_sleepingInterval feedbackInterval endTimestamp\<rparr>"

text \<open>
  The states of the sender: before the loop the three maps are empty and the first
  sleeping interval has been computed; every pass that builds a report leads to the
  next state.
\<close>

inductive reachable :: "bool \<Rightarrow> int \<Rightarrow> string list \<Rightarrow> FeedbackSender \<Rightarrow> bool"
  for le :: bool and feedbackInterval :: int and names :: "string list" where
  start: "reachable le feedbackInterval names
            \<lparr>tm2Info = [], tm1Info = [], tInfo = [],
             sleepingInterval = next_sleepingInterval feedbackInterval currentMillis\<rparr>"
| pass: "reachable le feedbackInterval names fs \<Longrightarrow>
         build_report le feedbackInterval names now rx reset fs = Inr (buffer, fs', reset') \<Longrightarrow>
         reachable le feedbackInterval names (end_of_cycle feedbackInterval endTimestamp fs')"

section \<open>FeedbackReceiver: decoding a report (FeedbackReceiver.cc)\<close>

text \<open>
  \<^verbatim>\<open>struct DatabaseInfo\<close>. The four floating-point fields and \<^verbatim>\<open>moving\<close> are copied
  from the position fix read at the start of the call; they are kept together as one
  value \<open>position\<close> of a type the model leaves open.
\<close>

record 'g DatabaseInfo =
  position :: 'g
  throughput :: u32
  numBits :: u32
  channelInfo :: string
  scanInfo :: string
  rat :: string
  timestamp :: u64
  tx_bitrate :: u32
  signal_strength :: int

text \<open>\<^verbatim>\<open>std::vector::at\<close>.\<close>

definition vector_at :: "'a list \<Rightarrow> nat \<Rightarrow> failure + 'a" where
  "vector_at xs i = (if i < length xs then Inr (xs ! i) else Inl (Thrown (out_of_range ''vector'')))"

text \<open>The body of the inner loop for the entry \<open>j\<close> of the block at \<open>offset\<close>.\<close>

definition decode_entry ::
  "bool \<Rightarrow> int \<Rightarrow> 'g \<Rightarrow> u8 list \<Rightarrow> string \<Rightarrow> u32 \<Rightarrow> u32 \<Rightarrow> failure + 'g DatabaseInfo list" where
  "decode_entry le feedbackInterval gps buffer ifaceName offset j =
     (let entryOffset = offset + 4 + j * 12
      in case memcpy_from buffer (unat entryOffset) 8 of
           Inl f \<Rightarrow> Inl f
         | Inr tsBytes \<Rightarrow>
             let ts = ntohll le (load_u64 le tsBytes)
             in if ts > 0
                then (case memcpy_from buffer (unat entryOffset + 8) 4 of
                        Inl f \<Rightarrow> Inl f
                      | Inr tpBytes \<Rightarrow>
                          let tp = ntohl le (load_u32 le tpBytes)
                          in Inr [\<lparr>position = gps, throughput = tp,
                                   numBits = tp * word_of_int feedbackInterval,
                                   channelInfo = [], scanInfo = [], rat = ifaceName,
                                   timestamp = ts, tx_bitrate = 0, signal_strength = 0\<rparr>])
                else Inr [])"

text \<open>Sequencing: the records of two steps, or the first failure.\<close>

definition then_records ::
  "failure + 'a list \<Rightarrow> failure + 'a list \<Rightarrow> failure + 'a list" where
  "then_records r s =
     (case r of Inl f \<Rightarrow> Inl f | Inr xs \<Rightarrow> (case s of Inl f \<Rightarrow> Inl f | Inr ys \<Rightarrow> Inr (xs @ ys)))"

text \<open>
  The body of the outer loop for block \<open>i\<close>; \<open>ifaceId\<close> is read from the buffer and
  used nowhere.
\<close>

definition decode_block ::
  "bool \<Rightarrow> int \<Rightarrow> 'g \<Rightarrow> string list \<Rightarrow> u8 list \<Rightarrow> u32 \<Rightarrow> failure + 'g DatabaseInfo list" where
  "decode_block le feedbackInterval gps dataSenderIfnames buffer i =
     (let offset = 4 + i * 40
      in case memcpy_from buffer (unat offset) 4 of
           Inl f \<Rightarrow> Inl f
         | Inr idBytes \<Rightarrow>
             let ifaceId = ntohl le (load_u32 le idBytes)
             in case vector_at dataSenderIfnames (unat i) of
                  Inl f \<Rightarrow> Inl f
                | Inr ifaceName \<Rightarrow>
                    then_records (decode_entry le feedbackInterval gps buffer ifaceName offset 0)
                   (then_records (decode_entry le feedbackInterval gps buffer ifaceName offset 1)
                                 (decode_entry le feedbackInterval gps buffer ifaceName offset 2)))"

text \<open>
  The outer loop from block \<open>i\<close> on, with \<open>n\<close> blocks to go; a failure ends it.
\<close>

fun decode_blocks ::
  "bool \<Rightarrow> int \<Rightarrow> 'g \<Rightarrow> string list \<Rightarrow> u8 list \<Rightarrow> nat \<Rightarrow> u32 \<Rightarrow> failure + 'g DatabaseInfo list" where
  "decode_blocks le feedbackInterval gps dataSenderIfnames buffer 0 i = Inr []"
| "decode_blocks le feedbackInterval gps dataSenderIfnames buffer (Suc n) i =
     (case decode_block le feedbackInterval gps dataSenderIfnames buffer i of
        Inl f \<Rightarrow> Inl f
      | Inr recs \<Rightarrow>
          (case decode_blocks le feedbackInterval gps dataSenderIfnames buffer n (i + 1) of
             Inl f \<Rightarrow> Inl f
           | Inr later \<Rightarrow> Inr (recs @ later)))"

text \<open>
  \<^verbatim>\<open>FeedbackReceiver::readFeedbackMessage\<close> on the bytes \<open>buffer\<close> points to. The copy
  \<^verbatim>\<open>this->ifaceMap[ifaceName]\<close> into a local that is not read is left out.
\<close>

definition readFeedbackMessage ::
  "bool \<Rightarrow> int \<Rightarrow> 'g \<Rightarrow> string list \<Rightarrow> u8 list \<Rightarrow> failure + 'g DatabaseInfo list" where
  "readFeedbackMessage le feedbackInterval gps dataSenderIfnames buffer =
     (case memcpy_from buffer 0 4 of
        Inl f \<Rightarrow> Inl f
      | Inr nBytes \<Rightarrow>
          let numberOfRats = ntohl le (load_u32 le nBytes)
          in decode_blocks le feedbackInterval gps dataSenderIfnames buffer (unat numberOfRats) 0)"

section \<open>The samples a report carries\<close>

text \<open>
  A sample is a timestamp and a throughput; on the wire it is 12 bytes, both numbers
  in network byte order. A stored message is well formed when it is the wire form of
  the sample stored with it.
\<close>

type_synonym sample = "u64 \<times> u32"

definition sample_bytes :: "sample \<Rightarrow> u8 list" where
  "sample_bytes s = be64 (fst s) @ be32 (snd s)"

definition stored_sample :: "FeedbackMessageStruct \<Rightarrow> sample" where
  "stored_sample m = (fm_timestamp m, fm_throughput m)"

definition info_ok :: "FeedbackMessageStruct strmap \<Rightarrow> bool" where
  "info_ok m = list_all (\<lambda>kv. fm_message (snd kv) = sample_bytes (stored_sample (snd kv))) m"

text \<open>
  The samples of the interface \<open>name\<close> in the report of a pass that starts in the
  state \<open>fs\<close>: the new one from the snapshot, the one of the pass before (then in
  \<^verbatim>\<open>tInfo\<close>) and the one of two passes before (then in \<^verbatim>\<open>tm1Info\<close>), the last only
  where the middle one exists. A sample that is not there is \<open>(0, 0)\<close>.
\<close>

definition sample_t :: "int \<Rightarrow> u64 \<Rightarrow> IfaceInfoMap \<Rightarrow> FeedbackSender \<Rightarrow> string \<Rightarrow> sample" where
  "sample_t feedbackInterval now rx fs name =
     (case map_find name (read_nbytesMap rx) of
        None \<Rightarrow> (0, 0)
      | Some nbytes \<Rightarrow>
          (now - now mod word_of_int feedbackInterval, throughput_of nbytes (sleepingInterval fs)))"

definition sample_t1 :: "FeedbackSender \<Rightarrow> string \<Rightarrow> sample" where
  "sample_t1 fs name =
     (case map_find name (tInfo fs) of None \<Rightarrow> (0, 0) | Some m \<Rightarrow> stored_sample m)"

definition sample_t2 :: "FeedbackSender \<Rightarrow> string \<Rightarrow> sample" where
  "sample_t2 fs name =
     (case map_find name (tInfo fs) of
        None \<Rightarrow> (0, 0)
      | Some _ \<Rightarrow> (case map_find name (tm1Info fs) of None \<Rightarrow> (0, 0) | Some m \<Rightarrow> stored_sample m))"

definition samples_of :: "int \<Rightarrow> u64 \<Rightarrow> IfaceInfoMap \<Rightarrow> FeedbackSender \<Rightarrow> string \<Rightarrow> sample list" where
  "samples_of feedbackInterval now rx fs name =
     [sample_t feedbackInterval now rx fs name, sample_t1 fs name, sample_t2 fs name]"

text \<open>
  The 40 bytes of block \<open>i\<close>: the counter as it lies in the host's memory, then the
  three samples.
\<close>

definition block_bytes :: "bool \<Rightarrow> nat \<Rightarrow> sample list \<Rightarrow> u8 list" where
  "block_bytes le i ss = store_u32 le (of_nat i) @ concat (map sample_bytes ss)"

text \<open>
  The record \<^verbatim>\<open>readFeedbackMessage\<close> makes from a sample of the interface \<open>name\<close>,
  and the records of a block: one for every sample whose timestamp is not zero.
\<close>

definition record_of :: "int \<Rightarrow> 'g \<Rightarrow> string \<Rightarrow> sample \<Rightarrow> 'g DatabaseInfo" where
  "record_of feedbackInterval gps name s =
     \<lparr>position = gps, throughput = snd s, numBits = snd s * word_of_int feedbackInterval,
      channelInfo = [], scanInfo = [], rat = name, timestamp = fst s,
      tx_bitrate = 0, signal_strength = 0\<rparr>"

definition records_of :: "int \<Rightarrow> 'g \<Rightarrow> string \<Rightarrow> sample list \<Rightarrow> 'g DatabaseInfo list" where
  "records_of feedbackInterval gps name ss =
     map (record_of feedbackInterval gps name) (filter (\<lambda>s. fst s \<noteq> 0) ss)"

section \<open>A first pass with two interfaces\<close>

text \<open>
  The interfaces \<^verbatim>\<open>lo\<close> and \<^verbatim>\<open>802.11ac\<close> with 6250 and 15000 bytes counted, a
  feedback interval of 100 ms, the clock at 900 ms before the loop and at 1000 ms in
  the first pass, on a little-endian host: the samples are (1000, 500) and
  (1000, 1200).
\<close>

definition demo_names :: "string list" where
  "demo_names = [''lo'', ''802.11ac'']"

definition demo_rx :: IfaceInfoMap where
  "demo_rx = [(''802.11ac'', lo_info\<lparr>nbytesAcc := 15000\<rparr>), (''lo'', lo_info\<lparr>nbytesAcc := 6250\<rparr>)]"

definition demo_reset :: "u32 strmap" where
  "demo_reset = [(''802.11ac'', 0), (''lo'', 0)]"

definition demo_fs :: FeedbackSender where
  "demo_fs = \<lparr>tm2Info = [], tm1Info = [], tInfo = [],
              sleepingInterval = next_sleepingInterval 100 900\<rparr>"

definition demo_report :: "u8 list" where
  "demo_report =
     [0, 0, 0, 2,
      0, 0, 0, 0,  0, 0, 0, 0, 0, 0, 3, 232, 0, 0, 1, 244,
      0, 0, 0, 0, 0, 0, 0, 0, 0, 0, 0, 0,  0, 0, 0, 0, 0, 0, 0, 0, 0, 0, 0, 0,
      1, 0, 0, 0,  0, 0, 0, 0, 0, 0, 3, 232, 0, 0, 4, 176,
      0, 0, 0, 0, 0, 0, 0, 0, 0, 0, 0, 0,  0, 0, 0, 0, 0, 0, 0, 0, 0, 0, 0, 0]"

definition demo_fs' :: FeedbackSender where
  "demo_fs' =
     \<lparr>tm2Info = [], tm1Info = [],
      tInfo = [(''802.11ac'',
                \<lparr>fm_timestamp = 1000, fm_throughput = 1200, fm_ifaceName = ''802.11ac'',
                 fm_message = [0, 0, 0, 0, 0, 0, 3, 232, 0, 0, 4, 176]\<rparr>),
               (''lo'',
                \<lparr>fm_timestamp = 1000, fm_throughput = 500, fm_ifaceName = ''lo'',
                 fm_message = [0, 0, 0, 0, 0, 0, 3, 232, 0, 0, 1, 244]\<rparr>)],
      sleepingInterval = 100\<rparr>"

definition demo_reset' :: "u32 strmap" where
  "demo_reset' = [(''802.11ac'', 15000), (''lo'', 6250)]"

section \<open>A first pass that starts off the interval boundary\<close>





section \<open>The interface identifiers of a configuration\<close>

text \<open>
  \<^verbatim>\<open>inet_pton(AF_INET, ...)\<close> of the C library, for the parameter \<open>inet_pton\<close> of the
  readers: four decimal numbers of at most 255 separated by dots, none with a leading
  zero.
\<close>

fun inet_pton4_loop :: "string \<Rightarrow> bool \<Rightarrow> nat \<Rightarrow> nat \<Rightarrow> bool" where
  "inet_pton4_loop [] saw_digit octets tp = (\<not> octets < 4)"
| "inet_pton4_loop (ch # src) saw_digit octets tp =
     (if isdigit ch
      then (let new = tp * 10 + (of_char ch - 48)
            in if saw_digit \<and> tp = 0 then False
               else if new > 255 then False
               else if \<not> saw_digit
                    then (if octets + 1 > 4 then False else inet_pton4_loop src True (octets + 1) new)
                    else inet_pton4_loop src True octets new)
      else if ch = CHR ''.'' \<and> saw_digit
           then (if octets = 4 then False else inet_pton4_loop src False octets 0)
           else False)"

definition inet_pton4 :: "string \<Rightarrow> bool" where
  "inet_pton4 src = inet_pton4_loop src False 0 0"

text \<open>
  The names that \<^verbatim>\<open>readIfnames\<close> and \<^verbatim>\<open>readIfaces\<close> see in a list of entries: the
  first word of every entry that has one.
\<close>

definition names_of :: "string list \<Rightarrow> string list" where
  "names_of es = concat (map (\<lambda>e. case getline_ws CHR '' '' e of None \<Rightarrow> [] | Some (n, _) \<Rightarrow> [n]) es)"

text \<open>
  A configuration that names the interface \<^verbatim>\<open>a\<close> twice in the receiver's list, what
  \<^verbatim>\<open>DataReceiver::readConfig\<close> makes of it, the table after 1250 bytes have been
  counted, and the first report.
\<close>

definition cfg_dup :: ConfigFile where
  "cfg_dup =
     \<lparr>content = [(''data-receiver/ifaces'', ''a 10.0.0.1, a 10.0.0.2''),
                 (''data-receiver/log-level'', ''1''),
                 (''data-receiver/port'', ''44444''),
                 (''data-sender/ifaces'', ''a 10.0.0.3''),
                 (''data-sender/port'', ''44443'')],
      sections = [''data-receiver'', ''data-sender'']\<rparr>"

definition dup_names :: "string list" where
  "dup_names = [''a'', ''a'']"

definition dup_rc :: DataReceiverConfig where
  "dup_rc =
     \<lparr>portSrv = 44444, portCli = 44443,
      rxIfaceMap = [(''a'', \<lparr>addrSrv = ''10.0.0.2'', addrCli = ''10.0.0.3'',
                             sockfd = UNINITIALIZED_FD, nbytesAcc = 0, ifaceId = 0\<rparr>)],
      nbytes_reset_value = [(''a'', 0)]\<rparr>"

definition dup_rx :: IfaceInfoMap where
  "dup_rx = [(''a'', \<lparr>addrSrv = ''10.0.0.2'', addrCli = ''10.0.0.3'',
                       sockfd = 5, nbytesAcc = 1250, ifaceId = 0\<rparr>)]"

definition dup_report :: "u8 list" where
  "dup_report =
     [0, 0, 0, 2,
      0, 0, 0, 0,  0, 0, 0, 0, 0, 0, 3, 232, 0, 0, 0, 100,
      0, 0, 0, 0, 0, 0, 0, 0, 0, 0, 0, 0,  0, 0, 0, 0, 0, 0, 0, 0, 0, 0, 0, 0,
      1, 0, 0, 0,  0, 0, 0, 0, 0, 0, 3, 232, 0, 0, 0, 100,
      0, 0, 0, 0, 0, 0, 0, 0, 0, 0, 0, 0,  0, 0, 0, 0, 0, 0, 0, 0, 0, 0, 0, 0]"

definition dup_fs' :: FeedbackSender where
  "dup_fs' =
     \<lparr>tm2Info = [], tm1Info = [],
      tInfo = [(''a'',
                \<lparr>fm_timestamp = 1000, fm_throughput = 100, fm_ifaceName = ''a'',
                 fm_message = [0, 0, 0, 0, 0, 0, 3, 232, 0, 0, 0, 100]\<rparr>)],
      sleepingInterval = 100\<rparr>"

text \<open>
  A configuration with the two interfaces of the first pass above, what
  \<^verbatim>\<open>DataReceiver::readConfig\<close> makes of it, and the table with open sockets and the
  bytes counted.
\<close>

definition demo_cfg :: ConfigFile where
  "demo_cfg =
     \<lparr>content = [(''data-receiver/ifaces'', ''lo 127.0.0.1, 802.11ac 10.0.0.2''),
                 (''data-receiver/log-level'', ''1''),
                 (''data-receiver/port'', ''44444''),
                 (''data-sender/ifaces'', ''lo 127.0.0.1, 802.11ac 10.0.0.1''),
                 (''data-sender/port'', ''44443'')],
      sections = [''data-receiver'', ''data-sender'']\<rparr>"

definition demo_rc :: DataReceiverConfig where
  "demo_rc =
     \<lparr>portSrv = 44444, portCli = 44443,
      rxIfaceMap = [(''802.11ac'', \<lparr>addrSrv = ''10.0.0.2'', addrCli = ''10.0.0.1'',
                                     sockfd = UNINITIALIZED_FD, nbytesAcc = 0, ifaceId = 1\<rparr>),
                    (''lo'', \<lparr>addrSrv = ''127.0.0.1'', addrCli = ''127.0.0.1'',
                               sockfd = UNINITIALIZED_FD, nbytesAcc = 0, ifaceId = 0\<rparr>)],
      nbytes_reset_value = [(''802.11ac'', 0), (''lo'', 0)]\<rparr>"

definition demo_cfg_rx :: IfaceInfoMap where
  "demo_cfg_rx =
     [(''802.11ac'', \<lparr>addrSrv = ''10.0.0.2'', addrCli = ''10.0.0.1'',
                       sockfd = 6, nbytesAcc = 15000, ifaceId = 1\<rparr>),
      (''lo'', \<lparr>addrSrv = ''127.0.0.1'', addrCli = ''127.0.0.1'',
                 sockfd = 5, nbytesAcc = 6250, ifaceId = 0\<rparr>)]"

section \<open>Bytes of integers\<close>

lemma byte_step:
  fixes w :: "'a::len word"
  shows "ucast (ucast (drop_bit n w) :: u8) OR push_bit 8 (drop_bit (n + 8) w) = drop_bit n w"
proof (rule bit_word_eqI)
  fix k assume k: "k < LENGTH('a)"
  show "bit (ucast (ucast (drop_bit n w) :: u8) OR push_bit 8 (drop_bit (n + 8) w)) k = bit (drop_bit n w) k"
  proof (cases "k < 8")
    case True
    with k show ?thesis by (simp add: bit_simps)
  next
    case False
    then have "n + 8 + (k - 8) = n + k" by simp
    with False k show ?thesis by (simp add: bit_simps)
  qed
qed

lemma byte_last32: "ucast (ucast (drop_bit 24 w) :: u8) = drop_bit 24 (w :: u32)"
  by (rule bit_word_eqI) (auto simp: bit_simps dest: bit_imp_le_length)


lemma u32_of_le_bytes_le_bytes: "u32_of_le_bytes (u32_le_bytes w) = w"
  unfolding u32_le_bytes_def
  using byte_step[of 16 w] byte_step[of 8 w] byte_step[of 0 w] byte_last32[of w]
  by simp


lemma low_byte:
  fixes y :: "'a::len word"
  shows "8 \<le> LENGTH('a) \<Longrightarrow> (ucast (ucast (b :: u8) OR push_bit 8 y) :: u8) = b"
  by (rule bit_word_eqI) (auto simp: bit_simps)

lemma higher_byte:
  fixes y :: "'a::len word"
  assumes "n + 16 \<le> LENGTH('a)"
  shows "(ucast (drop_bit (n + 8) (ucast (b :: u8) OR push_bit 8 y)) :: u8) = ucast (drop_bit n y)"
proof (rule bit_word_eqI)
  fix k assume k: "k < LENGTH(8)"
  then have "n + 8 + k < LENGTH('a)" "\<not> n + 8 + k < 8" "n + 8 + k - 8 = n + k"
    using assms by simp_all
  moreover have "\<not> bit b (n + 8 + k)"
    using bit_imp_le_length[of b "n + 8 + k"] by auto
  ultimately show "bit (ucast (drop_bit (n + 8) (ucast b OR push_bit 8 y)) :: u8) k
      = bit (ucast (drop_bit n y) :: u8) k"
    using k by (simp add: bit_simps)
qed

lemma hb32_8: "(ucast (drop_bit 8 (ucast (b :: u8) OR push_bit 8 (y :: u32))) :: u8) = ucast y"
  using higher_byte[where n=0 and y=y and b=b] by simp

lemma hb32_16: "(ucast (drop_bit 16 (ucast (b :: u8) OR push_bit 8 (y :: u32))) :: u8) = ucast (drop_bit 8 y)"
  using higher_byte[where n=8 and y=y and b=b] by simp

lemma hb32_24: "(ucast (drop_bit 24 (ucast (b :: u8) OR push_bit 8 (y :: u32))) :: u8) = ucast (drop_bit 16 y)"
  using higher_byte[where n=16 and y=y and b=b] by simp

lemma lb32: "(ucast (ucast (b :: u8) OR push_bit 8 (y :: u32)) :: u8) = b"
  by (rule low_byte) simp

lemma u32_le_bytes_of_le_bytes: "u32_le_bytes (u32_of_le_bytes [a, b, c, d]) = [a, b, c, d]"
  by (simp only: u32_le_bytes_def u32_of_le_bytes.simps hb32_8 hb32_16 hb32_24 lb32)

lemma hb64_8: "(ucast (drop_bit 8 (ucast (b :: u8) OR push_bit 8 (y :: u64))) :: u8) = ucast y"
  using higher_byte[where n=0 and y=y and b=b] by simp

lemma hb64_16: "(ucast (drop_bit 16 (ucast (b :: u8) OR push_bit 8 (y :: u64))) :: u8) = ucast (drop_bit 8 y)"
  using higher_byte[where n=8 and y=y and b=b] by simp

lemma hb64_24: "(ucast (drop_bit 24 (ucast (b :: u8) OR push_bit 8 (y :: u64))) :: u8) = ucast (drop_bit 16 y)"
  using higher_byte[where n=16 and y=y and b=b] by simp

lemma hb64_32: "(ucast (drop_bit 32 (ucast (b :: u8) OR push_bit 8 (y :: u64))) :: u8) = ucast (drop_bit 24 y)"
  using higher_byte[where n=24 and y=y and b=b] by simp

lemma hb64_40: "(ucast (drop_bit 40 (ucast (b :: u8) OR push_bit 8 (y :: u64))) :: u8) = ucast (drop_bit 32 y)"
  using higher_byte[where n=32 and y=y and b=b] by simp

lemma hb64_48: "(ucast (drop_bit 48 (ucast (b :: u8) OR push_bit 8 (y :: u64))) :: u8) = ucast (drop_bit 40 y)"
  using higher_byte[where n=40 and y=y and b=b] by simp

lemma hb64_56: "(ucast (drop_bit 56 (ucast (b :: u8) OR push_bit 8 (y :: u64))) :: u8) = ucast (drop_bit 48 y)"
  using higher_byte[where n=48 and y=y and b=b] by simp

lemma lb64: "(ucast (ucast (b :: u8) OR push_bit 8 (y :: u64)) :: u8) = b"
  by (rule low_byte) simp

lemma u64_le_bytes_of_le_bytes:
  "u64_le_bytes (u64_of_le_bytes [a, b, c, d, e, f, g, h]) = [a, b, c, d, e, f, g, h]"
  by (simp only: u64_le_bytes_def u64_of_le_bytes.simps
      hb64_8 hb64_16 hb64_24 hb64_32 hb64_40 hb64_48 hb64_56 lb64)

lemma ucast_low_half: "(ucast (push_bit 32 (ucast (a :: u32)) OR (ucast (b :: u32) :: u64)) :: u32) = b"
  by (rule bit_word_eqI) (auto simp: bit_simps)

lemma ucast_high_half:
  "(ucast (drop_bit 32 (push_bit 32 (ucast (a :: u32)) OR (ucast (b :: u32) :: u64))) :: u32) = a"
  by (rule bit_word_eqI) (auto simp: bit_simps dest: bit_imp_le_length)

lemma ucast_mask_low: "(ucast ((v :: u64) AND 0xFFFFFFFF) :: u32) = ucast v"
proof -
  have m: "(0xFFFFFFFF :: u64) = mask 32"
    by (simp add: mask_eq_exp_minus_1)
  have "(ucast (v AND mask 32) :: u32) = ucast v"
    by (rule bit_word_eqI) (simp add: bit_simps)
  then show ?thesis
    unfolding m .
qed

lemma u64_le_bytes_halves:
  "u64_le_bytes w = u32_le_bytes (ucast w) @ u32_le_bytes (ucast (drop_bit 32 w))"
  unfolding u64_le_bytes_def u32_le_bytes_def
  apply simp
  apply (intro conjI; rule bit_word_eqI; simp add: bit_simps)
  done

lemma u32_le_bytes_bswap32: "u32_le_bytes (bswap32 w) = rev (u32_le_bytes w)"
proof -
  have "rev (u32_le_bytes w) =
      [ucast (drop_bit 24 w), ucast (drop_bit 16 w), ucast (drop_bit 8 w), ucast w]"
    by (simp add: u32_le_bytes_def)
  then show ?thesis
    unfolding bswap32_def by (simp only: u32_le_bytes_of_le_bytes)
qed


lemma length_u32_le_bytes: "length (u32_le_bytes w) = 4"
  by (simp add: u32_le_bytes_def)

lemma length_u64_le_bytes: "length (u64_le_bytes w) = 8"
  by (simp add: u64_le_bytes_def)

lemma length_be32: "length (be32 w) = 4"
  by (simp add: be32_def length_u32_le_bytes)

lemma length_be64: "length (be64 w) = 8"
  by (simp add: be64_def length_u64_le_bytes)

lemma length_store_u32: "length (store_u32 le w) = 4"
  by (simp add: store_u32_def length_u32_le_bytes)

lemma store_htonl: "store_u32 le (htonl le w) = be32 w"
  by (simp add: store_u32_def htonl_def be32_def u32_le_bytes_bswap32)


lemma u64_le_bytes_htonll: "u64_le_bytes (htonll True v) = rev (u64_le_bytes v)"
proof -
  define hi :: u32 where "hi = ucast (drop_bit 32 v)"
  define lo :: u32 where "lo = ucast v"
  have h: "htonll True v = push_bit 32 (ucast (bswap32 lo)) OR ucast (bswap32 hi)"
    by (simp add: htonll_def htonl_def Let_def hi_def lo_def ucast_mask_low)
  have "u64_le_bytes (htonll True v) = u32_le_bytes (bswap32 hi) @ u32_le_bytes (bswap32 lo)"
    unfolding h u64_le_bytes_halves[of "push_bit 32 (ucast (bswap32 lo)) OR ucast (bswap32 hi)"]
    by (simp only: ucast_low_half ucast_high_half)
  also have "\<dots> = rev (u32_le_bytes lo @ u32_le_bytes hi)"
    by (simp only: u32_le_bytes_bswap32 rev_append)
  also have "u32_le_bytes lo @ u32_le_bytes hi = u64_le_bytes v"
    by (simp only: u64_le_bytes_halves hi_def lo_def)
  finally show ?thesis .
qed

lemma store_htonll: "store_u64 le (htonll le v) = be64 v"
proof (cases le)
  case True
  then show ?thesis
    by (simp add: store_u64_def be64_def u64_le_bytes_htonll)
next
  case False
  then show ?thesis
    by (simp add: store_u64_def be64_def htonll_def)
qed




lemma currInfo_bytes_eq: "currInfo_bytes le ts tp = be64 ts @ be32 tp"
  by (simp add: currInfo_bytes_def store_htonll store_htonl)

lemma be64_zero: "be64 0 = replicate 8 0"
  by (simp add: be64_def u64_le_bytes_def numeral_eq_Suc)

lemma be32_zero: "be32 0 = replicate 4 0"
  by (simp add: be32_def u32_le_bytes_def numeral_eq_Suc)

section \<open>Buffers\<close>

lemma memcpy_to_mid:
  "off = length pre \<Longrightarrow> length old = length src \<Longrightarrow>
   memcpy_to (pre @ old @ tail) off src = Inr (pre @ src @ tail)"
  by (simp add: memcpy_to_def)


lemma sint_small: "unat (w :: u32) < 2 ^ 31 \<Longrightarrow> sint w = int (unat w)"
proof -
  assume a: "unat w < 2 ^ 31"
  have lo: "- (2 ^ 31) \<le> uint w"
  proof -
    have "(0::int) \<le> uint w" by simp
    moreover have "- (2 ^ 31) \<le> (0::int)" by simp
    ultimately show ?thesis by (rule order_trans[rotated])
  qed
  have "int (unat w) < int (2 ^ 31)"
    using a by (simp only: of_nat_less_iff)
  then have hi: "uint w < 2 ^ 31"
    by simp
  have "sint w = signed_take_bit 31 (uint w)"
    using sint_uint[of w] by simp
  also have "\<dots> = uint w"
    using lo hi by (rule signed_take_bit_int_eq_self)
  finally show ?thesis by simp
qed

lemma length_sample_bytes: "length (sample_bytes s) = 12"
  by (simp add: sample_bytes_def length_be64 length_be32)

lemma sample_bytes_zero: "sample_bytes (0, 0) = replicate 12 0"
  by (simp add: sample_bytes_def be64_zero be32_zero replicate_add[symmetric])

lemma info_ok_find:
  "info_ok m \<Longrightarrow> map_find k m = Some v \<Longrightarrow> fm_message v = sample_bytes (stored_sample v)"
  by (induction m) (auto simp: info_ok_def split: if_splits)

lemma info_ok_insert:
  "info_ok m \<Longrightarrow> fm_message v = sample_bytes (stored_sample v) \<Longrightarrow> info_ok (map_insert k v m)"
  by (induction m) (auto simp: info_ok_def)

section \<open>FeedbackSender: one block of the report\<close>

lemma report_block_shape:
  assumes pre: "length pre = 4 + 40 * i"
    and bound: "4 + 40 * i + 40 < 2 ^ 32"
    and ok1: "info_ok tm1" and ok2: "info_ok tm2"
    and run: "report_block le ts sl nbm tm1 tm2 name (of_nat i) (pre @ replicate 40 0 @ tail, tI)
                = Inr (b', tI')"
  shows "\<exists>nb. map_find name nbm = Some nb \<and> sl \<noteq> 0 \<and>
           b' = pre @ block_bytes le i
                  [(ts, throughput_of nb sl),
                   (case map_find name tm1 of None \<Rightarrow> (0, 0) | Some m \<Rightarrow> stored_sample m),
                   (case map_find name tm1 of None \<Rightarrow> (0, 0)
                    | Some _ \<Rightarrow> (case map_find name tm2 of None \<Rightarrow> (0, 0) | Some m \<Rightarrow> stored_sample m))]
                @ tail \<and>
           tI' = map_insert name
                   \<lparr>fm_timestamp = ts, fm_throughput = throughput_of nb sl,
                    fm_ifaceName = name, fm_message = sample_bytes (ts, throughput_of nb sl)\<rparr> tI"
proof -
  from run obtain nb where nb: "map_find name nbm = Some nb"
    by (cases "map_find name nbm") (simp_all add: report_block_def Let_def)
  from run nb have sl: "sl \<noteq> 0"
    by (cases "sl = 0") (simp_all add: report_block_def Let_def)
  define idx where "idx = store_u32 le (of_nat i)"
  define cur where "cur = sample_bytes (ts, throughput_of nb sl)"
  have lidx: "length idx = 4" by (simp add: idx_def length_store_u32)
  have lcur: "length cur = 12" by (simp add: cur_def length_sample_bytes)
  have cur_eq: "currInfo_bytes le ts (throughput_of nb sl) = cur"
    by (simp add: cur_def currInfo_bytes_eq sample_bytes_def)
  have o0: "unat (4 + 40 * of_nat i :: u32) = 4 + 40 * i"
    and o1: "unat (8 + 40 * of_nat i :: u32) = 8 + 40 * i"
    and o2: "unat (20 + 40 * of_nat i :: u32) = 20 + 40 * i"
    and o3: "unat (32 + 40 * of_nat i :: u32) = 32 + 40 * i"
    using bound by (simp_all add: unat_word_ariths unat_of_nat)
  have r40: "replicate 40 (0::u8) = replicate 4 0 @ replicate 36 0"
    and r36: "replicate 36 (0::u8) = replicate 12 0 @ replicate 24 0"
    and r24: "replicate 24 (0::u8) = replicate 12 0 @ replicate 12 0"
    by (simp_all add: replicate_add[symmetric])
  have w1: "memcpy_to (pre @ replicate 40 0 @ tail) (4 + 40 * i) idx
              = Inr (pre @ idx @ replicate 36 0 @ tail)"
    unfolding r40 append_assoc
    by (rule memcpy_to_mid) (simp_all add: pre lidx)
  have w2: "memcpy_to (pre @ idx @ replicate 36 0 @ tail) (8 + 40 * i) cur
              = Inr (pre @ idx @ cur @ replicate 24 0 @ tail)"
    unfolding r36 append_assoc
    using memcpy_to_mid[of "8 + 40 * i" "pre @ idx" "replicate 12 0" cur "replicate 24 0 @ tail"]
    by (simp add: pre lidx lcur)
  have w3: "memcpy_to (pre @ idx @ cur @ replicate 24 0 @ tail) (20 + 40 * i) m1
              = Inr (pre @ idx @ cur @ m1 @ replicate 12 0 @ tail)" if "length m1 = 12" for m1
    unfolding r24 append_assoc
    using memcpy_to_mid[of "20 + 40 * i" "pre @ idx @ cur" "replicate 12 0" m1 "replicate 12 0 @ tail"] that
    by (simp add: pre lidx lcur)
  have w4: "memcpy_to (pre @ idx @ cur @ m1 @ replicate 12 0 @ tail) (32 + 40 * i) m2
              = Inr (pre @ idx @ cur @ m1 @ m2 @ tail)" if "length m1 = 12" "length m2 = 12" for m1 m2
    using memcpy_to_mid[of "32 + 40 * i" "pre @ idx @ cur @ m1" "replicate 12 0" m2 tail] that
    by (simp add: pre lidx lcur)
  define s1 where "s1 = (case map_find name tm1 of None \<Rightarrow> (0, 0) | Some m \<Rightarrow> stored_sample m)"
  define s2 where "s2 = (case map_find name tm1 of None \<Rightarrow> (0, 0)
     | Some _ \<Rightarrow> (case map_find name tm2 of None \<Rightarrow> (0, 0) | Some m \<Rightarrow> stored_sample m))"
  have z12: "replicate 12 (0::u8) = sample_bytes (0, 0)"
    by (simp add: sample_bytes_zero)
  have result: "b' = pre @ idx @ cur @ sample_bytes s1 @ sample_bytes s2 @ tail \<and>
      tI' = map_insert name
              \<lparr>fm_timestamp = ts, fm_throughput = throughput_of nb sl,
               fm_ifaceName = name, fm_message = cur\<rparr> tI"
  proof (cases "map_find name tm1")
    case None
    then have "sample_bytes s1 @ sample_bytes s2 @ tail = replicate 24 0 @ tail"
      by (simp add: s1_def s2_def r24 z12)
    with run nb sl None show ?thesis
      by (auto simp: report_block_def Let_def o0 o1 cur_eq idx_def[symmetric] w1 w2 split: if_splits)
  next
    case (Some m1)
    then have ne1: "tm1 \<noteq> []" by auto
    have m1: "fm_message m1 = sample_bytes s1"
      using info_ok_find[OF ok1 Some] by (simp add: s1_def Some)
    have l1: "length (fm_message m1) = 12"
      by (simp add: m1 length_sample_bytes)
    show ?thesis
    proof (cases "map_find name tm2")
      case None
      then have "sample_bytes s2 = replicate 12 0"
        by (simp add: s2_def z12 Some)
      with run nb sl Some ne1 None show ?thesis
        by (auto simp: report_block_def Let_def o0 o1 o2 cur_eq idx_def[symmetric] w1 w2 w3[OF l1]
            m1[symmetric] split: if_splits)
    next
      case (Some m2)
      then have ne2: "tm2 \<noteq> []" by auto
      have m2: "fm_message m2 = sample_bytes s2"
        using info_ok_find[OF ok2 Some] by (simp add: s2_def Some \<open>map_find name tm1 = Some m1\<close>)
      have l2: "length (fm_message m2) = 12"
        by (simp add: m2 length_sample_bytes)
      from run nb sl \<open>map_find name tm1 = Some m1\<close> Some ne1 ne2 show ?thesis
        by (auto simp: report_block_def Let_def o0 o1 o2 o3 cur_eq idx_def[symmetric] w1 w2
            w3[OF l1] w4[OF l1 l2] m1[symmetric] m2[symmetric] split: if_splits)
    qed
  qed
  with nb sl show ?thesis
    by (simp add: block_bytes_def idx_def cur_def s1_def s2_def)
qed


section \<open>FeedbackSender: all blocks\<close>

lemma length_block_bytes3: "length (block_bytes le i [a, b, c]) = 40"
  by (simp add: block_bytes_def length_store_u32 length_sample_bytes)

lemma report_blocks_shape:
  assumes ok1: "info_ok tm1" and ok2: "info_ok tm2"
  shows "length pre = 4 + 40 * i \<Longrightarrow> 4 + 40 * (i + length rest) < 2 ^ 32 \<Longrightarrow> info_ok tI \<Longrightarrow>
    report_blocks le ts sl nbm tm1 tm2 rest (of_nat i) (pre @ replicate (40 * length rest) 0, tI)
      = Inr (b', tI') \<Longrightarrow>
    b' = pre @ concat (map (\<lambda>(k, name). block_bytes le k
            [(case map_find name nbm of None \<Rightarrow> (0, 0) | Some nb \<Rightarrow> (ts, throughput_of nb sl)),
             (case map_find name tm1 of None \<Rightarrow> (0, 0) | Some m \<Rightarrow> stored_sample m),
             (case map_find name tm1 of None \<Rightarrow> (0, 0)
              | Some _ \<Rightarrow> (case map_find name tm2 of None \<Rightarrow> (0, 0) | Some m \<Rightarrow> stored_sample m))])
          (enumerate i rest)) \<and>
    info_ok tI'"
proof (induction rest arbitrary: i pre tI)
  case Nil
  then show ?case by simp
next
  case (Cons name rest)
  have split: "replicate (40 * length (name # rest)) (0::u8) =
      replicate 40 0 @ replicate (40 * length rest) 0"
    by (simp add: replicate_add[symmetric])
  from Cons.prems(4) obtain b1 tI1 where
    first: "report_block le ts sl nbm tm1 tm2 name (of_nat i)
              (pre @ replicate 40 0 @ replicate (40 * length rest) 0, tI) = Inr (b1, tI1)"
    and others: "report_blocks le ts sl nbm tm1 tm2 rest (of_nat i + 1) (b1, tI1) = Inr (b', tI')"
    unfolding split by (auto split: sum.splits)
  have bound1: "4 + 40 * i + 40 < (2::nat) ^ 32"
    using Cons.prems(2) by simp
  from report_block_shape[OF Cons.prems(1) bound1 ok1 ok2 first]
  obtain nb where nb: "map_find name nbm = Some nb" and sl: "sl \<noteq> 0"
    and b1: "b1 = pre @ block_bytes le i
                  [(ts, throughput_of nb sl),
                   (case map_find name tm1 of None \<Rightarrow> (0, 0) | Some m \<Rightarrow> stored_sample m),
                   (case map_find name tm1 of None \<Rightarrow> (0, 0)
                    | Some _ \<Rightarrow> (case map_find name tm2 of None \<Rightarrow> (0, 0) | Some m \<Rightarrow> stored_sample m))]
                @ replicate (40 * length rest) 0"
    and tI1: "tI1 = map_insert name
                   \<lparr>fm_timestamp = ts, fm_throughput = throughput_of nb sl,
                    fm_ifaceName = name, fm_message = sample_bytes (ts, throughput_of nb sl)\<rparr> tI"
    by blast
  define blk where "blk = block_bytes le i
                  [(ts, throughput_of nb sl),
                   (case map_find name tm1 of None \<Rightarrow> (0, 0) | Some m \<Rightarrow> stored_sample m),
                   (case map_find name tm1 of None \<Rightarrow> (0, 0)
                    | Some _ \<Rightarrow> (case map_find name tm2 of None \<Rightarrow> (0, 0) | Some m \<Rightarrow> stored_sample m))]"
  have lblk: "length blk = 40"
    unfolding blk_def by (rule length_block_bytes3)
  have pre': "length (pre @ blk) = 4 + 40 * Suc i"
    using Cons.prems(1) lblk by simp
  have bound': "4 + 40 * (Suc i + length rest) < (2::nat) ^ 32"
    using Cons.prems(2) by simp
  have ok': "info_ok tI1"
    unfolding tI1 using Cons.prems(3) by (rule info_ok_insert) (simp add: stored_sample_def)
  have others': "report_blocks le ts sl nbm tm1 tm2 rest (of_nat (Suc i))
      ((pre @ blk) @ replicate (40 * length rest) 0, tI1) = Inr (b', tI')"
    using others by (simp add: b1 blk_def add.commute)
  from Cons.IH[OF pre' bound' ok' others']
  show ?case
    by (simp add: nb blk_def)
qed


section \<open>FeedbackSender: the whole report\<close>

lemma report_block_tInfo:
  "report_block le ts sl nbm tm1 tm2 name i (b, tI) = Inr (b', tI') \<Longrightarrow> info_ok tI \<Longrightarrow> info_ok tI'"
proof -
  assume run: "report_block le ts sl nbm tm1 tm2 name i (b, tI) = Inr (b', tI')" and ok: "info_ok tI"
  from run obtain nb where nb: "map_find name nbm = Some nb"
    by (cases "map_find name nbm") (simp_all add: report_block_def Let_def)
  from run nb have "tI' = map_insert name
        \<lparr>fm_timestamp = ts, fm_throughput = throughput_of nb sl, fm_ifaceName = name,
         fm_message = currInfo_bytes le ts (throughput_of nb sl)\<rparr> tI"
    by (auto simp: report_block_def Let_def split: if_splits sum.splits option.splits)
  then show ?thesis
    using ok by (simp add: info_ok_insert stored_sample_def currInfo_bytes_eq sample_bytes_def)
qed

lemma report_blocks_tInfo:
  "report_blocks le ts sl nbm tm1 tm2 rest i (b, tI) = Inr (b', tI') \<Longrightarrow> info_ok tI \<Longrightarrow> info_ok tI'"
proof (induction rest arbitrary: i b tI)
  case Nil
  then show ?case by simp
next
  case (Cons name rest)
  from Cons.prems(1) obtain b1 tI1 where
    first: "report_block le ts sl nbm tm1 tm2 name i (b, tI) = Inr (b1, tI1)"
    and others: "report_blocks le ts sl nbm tm1 tm2 rest (i + 1) (b1, tI1) = Inr (b', tI')"
    by (auto split: sum.splits)
  from report_block_tInfo[OF first Cons.prems(2)] Cons.IH[OF others] show ?case by blast
qed

lemma build_report_state:
  assumes run: "build_report le fi names now rx reset fs = Inr (buffer, fs', reset')"
  shows "tm2Info fs' = tm1Info fs \<and> tm1Info fs' = tInfo fs \<and> info_ok (tInfo fs') \<and>
         sleepingInterval fs' = sleepingInterval fs"
proof -
  from run obtain b0 tI where
    blocks: "report_blocks le (now - now mod word_of_int fi) (sleepingInterval fs)
               (read_nbytesMap rx) (tInfo fs) (tm1Info fs) names 0 (b0, []) = Inr (buffer, tI)"
    and fs': "fs' = fs\<lparr>tm2Info := tm1Info fs, tm1Info := tInfo fs, tInfo := tI\<rparr>"
    by (auto simp: build_report_def Let_def split: if_splits sum.splits)
  have "info_ok tI"
    using blocks by (rule report_blocks_tInfo) (simp add: info_ok_def)
  with fs' show ?thesis by simp
qed

lemma reachable_info_ok:
  "reachable le fi names fs \<Longrightarrow> info_ok (tInfo fs) \<and> info_ok (tm1Info fs) \<and> info_ok (tm2Info fs)"
proof (induction rule: reachable.induct)
  case (start currentMillis)
  then show ?case by (simp add: info_ok_def)
next
  case (pass fs now rx reset buffer fs' reset' endTimestamp)
  from build_report_state[OF pass.hyps(2)] pass.IH show ?case
    by (simp add: end_of_cycle_def)
qed

lemma build_report_shape:
  assumes ok1: "info_ok (tInfo fs)" and ok2: "info_ok (tm1Info fs)"
    and bound: "4 + 40 * length names < 2 ^ 31"
    and run: "build_report le fi names now rx reset fs = Inr (buffer, fs', reset')"
  shows "buffer = be32 (of_nat (length names)) @
           concat (map (\<lambda>(k, name). block_bytes le k (samples_of fi now rx fs name))
                    (enumerate 0 names))"
proof -
  define N where "N = length names"
  have u: "unat (4 + of_nat N * 40 :: u32) = 4 + 40 * N"
    using bound by (simp add: N_def unat_word_ariths unat_of_nat)
  then have "unat (4 + of_nat N * 40 :: u32) < 2 ^ 31"
    using bound by (simp add: N_def)
  from sint_small[OF this] u have size: "sint (4 + of_nat N * 40 :: u32) = int (4 + 40 * N)"
    by simp
  have buf0: "replicate (4 + 40 * N) (0::u8) = [] @ replicate 4 0 @ replicate (40 * N) 0"
    by (simp add: replicate_add[symmetric])
  have hdr: "memcpy_to (replicate (4 + 40 * N) 0) 0 (store_u32 le (htonl le (of_nat N)))
      = Inr (be32 (of_nat N) @ replicate (40 * N) 0)"
    unfolding buf0 store_htonl
    using memcpy_to_mid[of 0 "[]" "replicate 4 0" "be32 (of_nat N)" "replicate (40 * N) 0"]
    by (simp add: length_be32)
  have nat_size: "nat (4 + 40 * int N) = 4 + 40 * N"
    by simp
  from run obtain tI where
    blocks: "report_blocks le (now - now mod word_of_int fi) (sleepingInterval fs)
               (read_nbytesMap rx) (tInfo fs) (tm1Info fs) names (of_nat 0)
               (be32 (of_nat N) @ replicate (40 * length names) 0, []) = Inr (buffer, tI)"
    by (auto simp: build_report_def Let_def N_def[symmetric] size nat_size hdr
        split: if_splits sum.splits)
  have "length (be32 (of_nat N :: u32)) = 4 + 40 * 0"
    by (simp add: length_be32)
  moreover have "4 + 40 * (0 + length names) < (2::nat) ^ 32"
    using bound by simp
  moreover have "info_ok []"
    by (simp add: info_ok_def)
  ultimately have "buffer = be32 (of_nat N) @ concat (map (\<lambda>(k, name). block_bytes le k
            [(case map_find name (read_nbytesMap rx) of None \<Rightarrow> (0, 0)
              | Some nb \<Rightarrow> (now - now mod word_of_int fi, throughput_of nb (sleepingInterval fs))),
             (case map_find name (tInfo fs) of None \<Rightarrow> (0, 0) | Some m \<Rightarrow> stored_sample m),
             (case map_find name (tInfo fs) of None \<Rightarrow> (0, 0)
              | Some _ \<Rightarrow> (case map_find name (tm1Info fs) of None \<Rightarrow> (0, 0) | Some m \<Rightarrow> stored_sample m))])
          (enumerate 0 names))"
    using report_blocks_shape[OF ok1 ok2 _ _ _ blocks] by blast
  then show ?thesis
    by (simp add: samples_of_def sample_t_def sample_t1_def sample_t2_def N_def)
qed

section \<open>FeedbackReceiver: one block\<close>


lemma records_of_append:
  "records_of fi gps name (xs @ ys) = records_of fi gps name xs @ records_of fi gps name ys"
  by (simp add: records_of_def)


section \<open>FeedbackReceiver: all blocks\<close>

lemma length_concat_blocks:
  "(\<And>x. x \<in> set xs \<Longrightarrow> length (f x) = n) \<Longrightarrow> length (concat (map f xs)) = n * length xs"
  by (induction xs) simp_all






section \<open>The first pass with two interfaces, evaluated\<close>

lemma demo_reachable: "reachable True 100 demo_names demo_fs"
  unfolding demo_fs_def by (rule reachable.start)

lemma demo_build: "build_report True 100 demo_names 1000 demo_rx demo_reset demo_fs
  = Inr (demo_report, demo_fs', demo_reset')"
  by code_simp

lemma demo_bound: "4 + 40 * length demo_names < (2::nat) ^ 31"
  by (simp add: demo_names_def)

section \<open>The redundancy round trip\<close>



lemma take_drop_concat_blocks:
  "(\<And>x. length (f x) = n) \<Longrightarrow> i < length xs \<Longrightarrow>
   take n (drop (n * i) (concat (map f xs))) = f (xs ! i)"
proof (induction xs arbitrary: i)
  case Nil
  then show ?case by simp
next
  case (Cons x xs)
  show ?case
  proof (cases i)
    case 0
    then show ?thesis using Cons.prems(1)[of x] by simp
  next
    case (Suc j)
    then have "j < length xs" using Cons.prems(2) by simp
    from Cons.IH[OF Cons.prems(1) this] Suc Cons.prems(1)[of x] show ?thesis
      by simp
  qed
qed

section \<open>The layout of the report\<close>

text \<open>
  C5: the report is \<open>4 + 40 N\<close> bytes long; its first four bytes are \<open>N\<close> in network
  byte order; block \<open>i\<close> starts at offset \<open>4 + 40 i\<close> and holds the counter \<open>i\<close> as it
  lies in the host's memory (reversed network order on a little-endian host), then
  the three 12-byte samples, each a 64-bit timestamp and a 32-bit throughput in network
  byte order.
\<close>

theorem report_layout:
  assumes "reachable le feedbackInterval names fs"
    and "4 + 40 * length names < 2 ^ 31"
    and "build_report le feedbackInterval names now rx reset fs = Inr (buffer, fs', reset')"
  shows "length buffer = 4 + 40 * length names \<and>
         take 4 buffer = be32 (of_nat (length names)) \<and>
         (\<forall>i < length names.
            take 40 (drop (4 + 40 * i) buffer) =
              store_u32 le (of_nat i) @
              sample_bytes (sample_t feedbackInterval now rx fs (names ! i)) @
              sample_bytes (sample_t1 fs (names ! i)) @
              sample_bytes (sample_t2 fs (names ! i))) \<and>
         (\<forall>s. sample_bytes s = be64 (fst s) @ be32 (snd s)) \<and>
         (\<forall>w. store_u32 le w = (if le then rev (be32 w) else be32 w))"
proof -
  from reachable_info_ok[OF assms(1)] have ok: "info_ok (tInfo fs)" "info_ok (tm1Info fs)"
    by simp_all
  define blk where "blk = (\<lambda>(k, name). block_bytes le k (samples_of feedbackInterval now rx fs name))"
  have buf: "buffer = be32 (of_nat (length names)) @ concat (map blk (enumerate 0 names))"
    unfolding blk_def using ok assms(2) assms(3) by (rule build_report_shape)
  have lblk: "length (blk e) = 40" for e
    by (cases e) (simp add: blk_def samples_of_def length_block_bytes3)
  have len: "length (concat (map blk (enumerate 0 names))) = 40 * length (enumerate 0 names)"
    by (rule length_concat_blocks) (rule lblk)
  have c1: "length buffer = 4 + 40 * length names"
    by (simp add: buf len length_be32)
  have c2: "take 4 buffer = be32 (of_nat (length names))"
    by (simp add: buf length_be32)
  have c3: "take 40 (drop (4 + 40 * i) buffer) =
              store_u32 le (of_nat i) @
              sample_bytes (sample_t feedbackInterval now rx fs (names ! i)) @
              sample_bytes (sample_t1 fs (names ! i)) @
              sample_bytes (sample_t2 fs (names ! i))" if "i < length names" for i
  proof -
    have "take 40 (drop (40 * i) (concat (map blk (enumerate 0 names)))) = blk (enumerate 0 names ! i)"
      using that by (intro take_drop_concat_blocks lblk) simp
    then show ?thesis
      using that by (simp add: buf length_be32 nth_enumerate_eq blk_def block_bytes_def samples_of_def)
  qed
  have c4: "store_u32 le w = (if le then rev (be32 w) else be32 w)" for w
    by (simp add: store_u32_def be32_def)
  from c1 c2 c3 c4 show ?thesis
    by (simp add: sample_bytes_def)
qed

theorem report_layout_witness:
  "reachable True 100 demo_names demo_fs \<and>
   4 + 40 * length demo_names < (2::nat) ^ 31 \<and>
   build_report True 100 demo_names 1000 demo_rx demo_reset demo_fs
     = Inr (demo_report, demo_fs', demo_reset') \<and>
   length demo_report = 84 \<and>
   take 4 demo_report = [0, 0, 0, 2] \<and>
   take 40 (drop 44 demo_report) =
     [1, 0, 0, 0] @ [0, 0, 0, 0, 0, 0, 3, 232, 0, 0, 4, 176] @ replicate 12 0 @ replicate 12 0"
proof -
  note r = report_layout[OF demo_reachable demo_bound demo_build]
  have l: "length demo_names = 2" "(1::nat) < length demo_names" "demo_names ! 1 = ''802.11ac''"
    by (simp_all add: demo_names_def)
  have b: "be32 (of_nat (length demo_names)) = [0, 0, 0, 2]"
    by code_simp
  have s: "store_u32 True (of_nat 1) @
      sample_bytes (sample_t 100 1000 demo_rx demo_fs (demo_names ! 1)) @
      sample_bytes (sample_t1 demo_fs (demo_names ! 1)) @
      sample_bytes (sample_t2 demo_fs (demo_names ! 1)) =
      [1, 0, 0, 0] @ [0, 0, 0, 0, 0, 0, 3, 232, 0, 0, 4, 176] @ replicate 12 0 @ replicate 12 0"
    by code_simp
  from r have c1: "length demo_report = 4 + 40 * length demo_names"
    and c2: "take 4 demo_report = be32 (of_nat (length demo_names))"
    and c3: "\<forall>i<length demo_names. take 40 (drop (4 + 40 * i) demo_report) =
              store_u32 True (of_nat i) @
              sample_bytes (sample_t 100 1000 demo_rx demo_fs (demo_names ! i)) @
              sample_bytes (sample_t1 demo_fs (demo_names ! i)) @
              sample_bytes (sample_t2 demo_fs (demo_names ! i))"
    by blast+
  from c3 l(2) have "take 40 (drop (4 + 40 * 1) demo_report) =
              store_u32 True (of_nat 1) @
              sample_bytes (sample_t 100 1000 demo_rx demo_fs (demo_names ! 1)) @
              sample_bytes (sample_t1 demo_fs (demo_names ! 1)) @
              sample_bytes (sample_t2 demo_fs (demo_names ! 1))"
    by blast
  then have c3': "take 40 (drop 44 demo_report) =
      [1, 0, 0, 0] @ [0, 0, 0, 0, 0, 0, 3, 232, 0, 0, 4, 176] @ replicate 12 0 @ replicate 12 0"
    unfolding s by simp
  from c1 have c1': "length demo_report = 84"
    by (simp add: l(1))
  from c2 have c2': "take 4 demo_report = [0, 0, 0, 2]"
    by (simp only: b)
  from c1' c2' c3' demo_reachable demo_bound demo_build show ?thesis
    by blast
qed

section \<open>FeedbackReceiver: names by position\<close>

lemma decode_entry_rat:
  "decode_entry le fi gps buffer name offset j = Inr recs \<Longrightarrow> d \<in> set recs \<Longrightarrow> rat d = name"
  by (auto simp: decode_entry_def Let_def split: sum.splits if_splits)

lemma then_records_Inr:
  "then_records r s = Inr zs \<Longrightarrow> \<exists>xs ys. r = Inr xs \<and> s = Inr ys \<and> zs = xs @ ys"
  by (auto simp: then_records_def split: sum.splits)

lemma decode_block_rat:
  assumes "decode_block le fi gps names buffer i = Inr recs"
  shows "unat i < length names \<and> (\<forall>d \<in> set recs. rat d = names ! unat i)"
proof -
  from assms have inb: "unat i < length names"
    by (auto simp: decode_block_def Let_def vector_at_def split: sum.splits if_splits)
  from assms inb obtain r0 r1 r2 where
    "decode_entry le fi gps buffer (names ! unat i) (4 + i * 40) 0 = Inr r0"
    "decode_entry le fi gps buffer (names ! unat i) (4 + i * 40) 1 = Inr r1"
    "decode_entry le fi gps buffer (names ! unat i) (4 + i * 40) 2 = Inr r2"
    "recs = r0 @ r1 @ r2"
    by (auto simp: decode_block_def Let_def vector_at_def split: sum.splits dest!: then_records_Inr)
  with inb show ?thesis
    by (auto dest: decode_entry_rat)
qed

lemma decode_blocks_split:
  "decode_blocks le fi gps names buffer n i = Inr recs \<Longrightarrow>
   \<exists>blocks. recs = concat blocks \<and> length blocks = n \<and>
     (\<forall>k < n. decode_block le fi gps names buffer (i + of_nat k) = Inr (blocks ! k))"
proof (induction n arbitrary: i recs)
  case 0
  then show ?case by simp
next
  case (Suc n)
  from Suc.prems obtain r rs where
    first: "decode_block le fi gps names buffer i = Inr r"
    and others: "decode_blocks le fi gps names buffer n (i + 1) = Inr rs"
    and recs: "recs = r @ rs"
    by (auto split: sum.splits)
  from Suc.IH[OF others] obtain blocks where
    b: "rs = concat blocks" "length blocks = n"
    "\<forall>k < n. decode_block le fi gps names buffer (i + 1 + of_nat k) = Inr (blocks ! k)"
    by blast
  have "\<forall>k < Suc n. decode_block le fi gps names buffer (i + of_nat k) = Inr ((r # blocks) ! k)"
  proof (intro allI impI)
    fix k assume "k < Suc n"
    show "decode_block le fi gps names buffer (i + of_nat k) = Inr ((r # blocks) ! k)"
    proof (cases k)
      case 0
      then show ?thesis by (simp add: first)
    next
      case (Suc k')
      with \<open>k < Suc n\<close> b(3) show ?thesis
        by (simp add: add.assoc add.commute[of 1])
    qed
  qed
  with b recs show ?case
    by (intro exI[of _ "r # blocks"]) simp
qed

section \<open>FeedbackReceiver: the index field is not used\<close>

lemma memcpy_from_patch:
  assumes "length idx = 4" and "p + 4 \<le> length b" and "off + n \<le> p \<or> p + 4 \<le> off"
  shows "memcpy_from (take p b @ idx @ drop (p + 4) b) off n = memcpy_from b off n"
proof -
  define b' where "b' = take p b @ idx @ drop (p + 4) b"
  have len: "length b' = length b"
    using assms(1,2) by (simp add: b'_def)
  have nth: "b' ! m = b ! m" if "m < p \<or> p + 4 \<le> m" "m < length b" for m
    using that assms(1,2) by (auto simp: b'_def nth_append)
  have "take n (drop off b') = take n (drop off b)" if "off + n \<le> length b"
  proof (rule nth_equalityI)
    show "length (take n (drop off b')) = length (take n (drop off b))"
      by (simp add: len)
  next
    fix k assume "k < length (take n (drop off b'))"
    then have k: "k < n" "off + k < length b"
      using that by (simp_all add: len)
    then have "off + k < p \<or> p + 4 \<le> off + k"
      using assms(3) by auto
    from nth[OF this k(2)] k show "take n (drop off b') ! k = take n (drop off b) ! k"
      by (simp add: len)
  qed
  then show ?thesis
    unfolding b'_def[symmetric] by (simp add: memcpy_from_def len)
qed

lemma decode_entry_patch:
  assumes "length idx = 4" and "p + 4 \<le> length b"
    and "unat (offset + 4 + j * 12) + 12 \<le> p \<or> p + 4 \<le> unat (offset + 4 + j * 12)"
  shows "decode_entry le fi gps (take p b @ idx @ drop (p + 4) b) name offset j
       = decode_entry le fi gps b name offset j"
proof -
  define e where "e = unat (offset + 4 + j * 12)"
  have "e + 8 \<le> p \<or> p + 4 \<le> e" "e + 8 + 4 \<le> p \<or> p + 4 \<le> e + 8"
    using assms(3) by (auto simp: e_def)
  then have "memcpy_from (take p b @ idx @ drop (p + 4) b) e 8 = memcpy_from b e 8"
    and "memcpy_from (take p b @ idx @ drop (p + 4) b) (e + 8) 4 = memcpy_from b (e + 8) 4"
    using assms(1,2) by (simp_all add: memcpy_from_patch)
  then show ?thesis
    unfolding decode_entry_def Let_def e_def by (simp only:)
qed

lemma decode_block_unfold:
  "decode_block le fi gps names buffer i =
     (if unat (4 + i * 40) + 4 \<le> length buffer
      then (case vector_at names (unat i) of
              Inl f \<Rightarrow> Inl f
            | Inr ifaceName \<Rightarrow>
                then_records (decode_entry le fi gps buffer ifaceName (4 + i * 40) 0)
               (then_records (decode_entry le fi gps buffer ifaceName (4 + i * 40) 1)
                             (decode_entry le fi gps buffer ifaceName (4 + i * 40) 2)))
      else Inl (Undefined ''read outside the buffer''))"
  by (simp add: decode_block_def memcpy_from_def Let_def)

lemma decode_block_patch:
  assumes idx: "length idx = 4" and p: "p = 4 + 40 * m" and inb: "p + 4 \<le> length b"
    and bound: "40 * length names + 44 < 2 ^ 32"
  shows "decode_block le fi gps names (take p b @ idx @ drop (p + 4) b) i
       = decode_block le fi gps names b i"
proof -
  have len: "length (take p b @ idx @ drop (p + 4) b) = length b"
    using idx inb by simp
  show ?thesis
  proof (cases "unat i < length names")
    case False
    then show ?thesis
      unfolding decode_block_unfold len by (simp add: vector_at_def)
  next
    case True
    define u where "u = unat i"
    have u: "40 * u + 44 < 2 ^ 32"
      using True bound by (simp add: u_def)
    have o0: "unat (4 + i * 40 + 4 + 0 * 12) = 8 + 40 * u"
      and o1: "unat (4 + i * 40 + 4 + 1 * 12) = 20 + 40 * u"
      and o2: "unat (4 + i * 40 + 4 + 2 * 12) = 32 + 40 * u"
      using u by (simp_all add: unat_word_ariths u_def)
    have d0: "8 + 40 * u + 12 \<le> p \<or> p + 4 \<le> 8 + 40 * u"
      and d1: "20 + 40 * u + 12 \<le> p \<or> p + 4 \<le> 20 + 40 * u"
      and d2: "32 + 40 * u + 12 \<le> p \<or> p + 4 \<le> 32 + 40 * u"
      unfolding p by (cases "u < m"; simp)+
    have e0: "decode_entry le fi gps (take p b @ idx @ drop (p + 4) b) name (4 + i * 40) 0
        = decode_entry le fi gps b name (4 + i * 40) 0" for name
      by (rule decode_entry_patch[OF idx inb]) (simp only: o0 d0)
    have e1: "decode_entry le fi gps (take p b @ idx @ drop (p + 4) b) name (4 + i * 40) 1
        = decode_entry le fi gps b name (4 + i * 40) 1" for name
      by (rule decode_entry_patch[OF idx inb]) (simp only: o1 d1)
    have e2: "decode_entry le fi gps (take p b @ idx @ drop (p + 4) b) name (4 + i * 40) 2
        = decode_entry le fi gps b name (4 + i * 40) 2" for name
      by (rule decode_entry_patch[OF idx inb]) (simp only: o2 d2)
    show ?thesis
      unfolding decode_block_unfold len e0 e1 e2 ..
  qed
qed

lemma decode_blocks_patch:
  assumes idx: "length idx = 4" and p: "p = 4 + 40 * m" and inb: "p + 4 \<le> length b"
    and bound: "40 * length names + 44 < 2 ^ 32"
  shows "decode_blocks le fi gps names (take p b @ idx @ drop (p + 4) b) n i
       = decode_blocks le fi gps names b n i"
proof (induction n arbitrary: i)
  case 0
  show ?case by simp
next
  case (Suc n)
  show ?case
    unfolding decode_blocks.simps decode_block_patch[OF idx p inb bound] Suc.IH ..
qed

lemma readFeedbackMessage_patch:
  assumes idx: "length idx = 4" and inb: "4 + 40 * m + 4 \<le> length b"
    and bound: "40 * length names + 44 < 2 ^ 32"
  shows "readFeedbackMessage le fi gps names (take (4 + 40 * m) b @ idx @ drop (4 + 40 * m + 4) b)
       = readFeedbackMessage le fi gps names b"
proof -
  have "memcpy_from (take (4 + 40 * m) b @ idx @ drop (4 + 40 * m + 4) b) 0 4 = memcpy_from b 0 4"
    using idx inb by (intro memcpy_from_patch) simp_all
  then show ?thesis
    unfolding readFeedbackMessage_def decode_blocks_patch[OF idx refl inb bound]
    by (simp only:)
qed

text \<open>
  C10: the records of a decoded report come block by block, those of block \<open>k\<close> carry
  the \<open>k\<close>-th name of the receiver's own list \<^verbatim>\<open>dataSenderIfnames\<close>, and overwriting
  the four bytes of the index field of any block leaves the result of
  \<^verbatim>\<open>readFeedbackMessage\<close> as it was (for a name list short enough that the 32-bit
  offsets do not wrap).
\<close>

theorem rat_by_position:
  assumes "40 * length dataSenderIfnames + 44 < 2 ^ 32"
  shows "(\<forall>recs. readFeedbackMessage le feedbackInterval gps dataSenderIfnames buffer = Inr recs \<longrightarrow>
            (\<exists>blocks. recs = concat blocks \<and>
               length blocks = unat (ntohl le (load_u32 le (take 4 buffer))) \<and>
               (\<forall>k < length blocks.
                  decode_block le feedbackInterval gps dataSenderIfnames buffer (of_nat k) = Inr (blocks ! k) \<and>
                  k < length dataSenderIfnames \<and>
                  (\<forall>d \<in> set (blocks ! k). rat d = dataSenderIfnames ! k)))) \<and>
         (\<forall>m idx. length idx = 4 \<and> 4 + 40 * m + 4 \<le> length buffer \<longrightarrow>
            readFeedbackMessage le feedbackInterval gps dataSenderIfnames
              (take (4 + 40 * m) buffer @ idx @ drop (4 + 40 * m + 4) buffer)
            = readFeedbackMessage le feedbackInterval gps dataSenderIfnames buffer)"
proof (intro conjI allI impI)
  fix recs
  assume run: "readFeedbackMessage le feedbackInterval gps dataSenderIfnames buffer = Inr recs"
  define N where "N = ntohl le (load_u32 le (take 4 buffer))"
  from run have "decode_blocks le feedbackInterval gps dataSenderIfnames buffer (unat N) 0 = Inr recs"
    by (auto simp: readFeedbackMessage_def memcpy_from_def Let_def N_def split: if_splits)
  from decode_blocks_split[OF this] obtain blocks where
    b: "recs = concat blocks" "length blocks = unat N"
    "\<forall>k < unat N. decode_block le feedbackInterval gps dataSenderIfnames buffer (0 + of_nat k) = Inr (blocks ! k)"
    by blast
  have "decode_block le feedbackInterval gps dataSenderIfnames buffer (of_nat k) = Inr (blocks ! k) \<and>
        k < length dataSenderIfnames \<and> (\<forall>d \<in> set (blocks ! k). rat d = dataSenderIfnames ! k)"
    if "k < length blocks" for k
  proof -
    from that b have dk: "decode_block le feedbackInterval gps dataSenderIfnames buffer (of_nat k) = Inr (blocks ! k)"
      by simp
    have "unat N < 2 ^ LENGTH(32)"
      by (rule unsigned_less)
    then have "k < 2 ^ 32"
      using that b(2) by simp
    then have "unat (of_nat k :: u32) = k"
      by (simp add: unat_of_nat)
    with decode_block_rat[OF dk] dk show ?thesis
      by simp
  qed
  with b show "\<exists>blocks. recs = concat blocks \<and>
               length blocks = unat (ntohl le (load_u32 le (take 4 buffer))) \<and>
               (\<forall>k < length blocks.
                  decode_block le feedbackInterval gps dataSenderIfnames buffer (of_nat k) = Inr (blocks ! k) \<and>
                  k < length dataSenderIfnames \<and>
                  (\<forall>d \<in> set (blocks ! k). rat d = dataSenderIfnames ! k))"
    unfolding N_def by blast
next
  fix m and idx :: "u8 list"
  assume "length idx = 4 \<and> 4 + 40 * m + 4 \<le> length buffer"
  then show "readFeedbackMessage le feedbackInterval gps dataSenderIfnames
              (take (4 + 40 * m) buffer @ idx @ drop (4 + 40 * m + 4) buffer)
            = readFeedbackMessage le feedbackInterval gps dataSenderIfnames buffer"
    using assms by (intro readFeedbackMessage_patch) simp_all
qed

theorem rat_by_position_witness:
  "40 * length demo_names + 44 < (2::nat) ^ 32 \<and>
   readFeedbackMessage True 100 () demo_names demo_report =
     Inr [\<lparr>position = (), throughput = 500, numBits = 50000, channelInfo = [],
           scanInfo = [], rat = demo_names ! 0, timestamp = 1000, tx_bitrate = 0,
           signal_strength = 0\<rparr>,
          \<lparr>position = (), throughput = 1200, numBits = 120000, channelInfo = [],
           scanInfo = [], rat = demo_names ! 1, timestamp = 1000, tx_bitrate = 0,
           signal_strength = 0\<rparr>] \<and>
   length [0, 0, 0, 1 :: u8] = 4 \<and> 4 + 40 * 1 + 4 \<le> length demo_report \<and>
   readFeedbackMessage True 100 () demo_names
       (take (4 + 40 * 1) demo_report @ [0, 0, 0, 1] @ drop (4 + 40 * 1 + 4) demo_report) =
     readFeedbackMessage True 100 () demo_names demo_report"
proof -
  have bound: "40 * length demo_names + 44 < (2::nat) ^ 32"
    by (simp add: demo_names_def)
  have run: "readFeedbackMessage True 100 () demo_names demo_report =
     Inr [\<lparr>position = (), throughput = 500, numBits = 50000, channelInfo = [],
           scanInfo = [], rat = demo_names ! 0, timestamp = 1000, tx_bitrate = 0,
           signal_strength = 0\<rparr>,
          \<lparr>position = (), throughput = 1200, numBits = 120000, channelInfo = [],
           scanInfo = [], rat = demo_names ! 1, timestamp = 1000, tx_bitrate = 0,
           signal_strength = 0\<rparr>]"
    by code_simp
  have inb: "length [0, 0, 0, 1 :: u8] = 4 \<and> 4 + 40 * 1 + 4 \<le> length demo_report"
    by (simp add: demo_report_def)
  note r = rat_by_position[OF bound, of True 100 "()" demo_report]
  from r inb have "readFeedbackMessage True 100 () demo_names
       (take (4 + 40 * 1) demo_report @ [0, 0, 0, 1] @ drop (4 + 40 * 1 + 4) demo_report) =
     readFeedbackMessage True 100 () demo_names demo_report"
    by blast
  with bound run inb show ?thesis
    by blast
qed

section \<open>FeedbackSender: the throughput and the snapshot\<close>

lemma report_block_found:
  "report_block le ts sl nbm tm1 tm2 name i st = Inr st' \<Longrightarrow>
   (\<exists>nb. map_find name nbm = Some nb) \<and> sl \<noteq> 0"
  by (cases st; cases "map_find name nbm"; cases "sl = 0")
     (simp_all add: report_block_def Let_def)

lemma report_blocks_found:
  "report_blocks le ts sl nbm tm1 tm2 rest i st = Inr st' \<Longrightarrow> name \<in> set rest \<Longrightarrow>
   (\<exists>nb. map_find name nbm = Some nb) \<and> sl \<noteq> 0"
proof (induction rest arbitrary: i st)
  case Nil
  then show ?case by simp
next
  case (Cons n rest)
  from Cons.prems(1) obtain st1 where
    first: "report_block le ts sl nbm tm1 tm2 n i st = Inr st1"
    and others: "report_blocks le ts sl nbm tm1 tm2 rest (i + 1) st1 = Inr st'"
    by (auto split: sum.splits)
  show ?case
  proof (cases "name = n")
    case True
    with report_block_found[OF first] show ?thesis by simp
  next
    case False
    with Cons.prems(2) have "name \<in> set rest" by simp
    from Cons.IH[OF others this] show ?thesis .
  qed
qed

lemma build_report_found:
  assumes "build_report le fi names now rx reset fs = Inr (buffer, fs', reset')"
    and "name \<in> set names"
  shows "(\<exists>nb. map_find name (read_nbytesMap rx) = Some nb) \<and> sleepingInterval fs \<noteq> 0"
proof -
  from assms(1) obtain b0 st' where
    "report_blocks le (now - now mod word_of_int fi) (sleepingInterval fs)
       (read_nbytesMap rx) (tInfo fs) (tm1Info fs) names 0 (b0, []) = Inr st'"
    by (auto simp: build_report_def Let_def split: if_splits sum.splits)
  from report_blocks_found[OF this assms(2)] show ?thesis .
qed



lemma build_report_block:
  assumes ok1: "info_ok (tInfo fs)" and ok2: "info_ok (tm1Info fs)"
    and bound: "4 + 40 * length names < 2 ^ 31"
    and run: "build_report le fi names now rx reset fs = Inr (buffer, fs', reset')"
    and i: "i < length names"
  shows "take 40 (drop (4 + 40 * i) buffer) = block_bytes le i (samples_of fi now rx fs (names ! i))"
proof -
  define blk where "blk = (\<lambda>(k, name). block_bytes le k (samples_of fi now rx fs name))"
  have buf: "buffer = be32 (of_nat (length names)) @ concat (map blk (enumerate 0 names))"
    unfolding blk_def using ok1 ok2 bound run by (rule build_report_shape)
  have lblk: "length (blk e) = 40" for e
    by (cases e) (simp add: blk_def samples_of_def length_block_bytes3)
  have "take 40 (drop (40 * i) (concat (map blk (enumerate 0 names)))) = blk (enumerate 0 names ! i)"
    using i by (intro take_drop_concat_blocks lblk) simp
  then show ?thesis
    using i by (simp add: buf length_be32 nth_enumerate_eq blk_def)
qed



lemma map_find_None: "\<forall>x \<in> set m. fst x \<noteq> k \<Longrightarrow> map_find k m = None"
  by (induction m) auto

lemma in_map_insert: "(a, b) \<in> set (map_insert k v m) \<Longrightarrow> a = k \<or> (a, b) \<in> set m"
  by (induction m) (auto split: if_splits)

lemma sorted_map_insert:
  "sorted_wrt (<) (map fst m) \<Longrightarrow> sorted_wrt (<) (map fst (map_insert k v m))"
proof (induction m)
  case Nil
  then show ?case by simp
next
  case (Cons kv m)
  obtain k1 v1 where kv: "kv = (k1, v1)" by (cases kv)
  from Cons.prems have above: "\<forall>x \<in> set m. k1 < fst x" and sm: "sorted_wrt (<) (map fst m)"
    by (simp_all add: kv)
  show ?case
  proof (cases "k = k1")
    case True
    with Cons.prems show ?thesis by (simp add: kv)
  next
    case False
    show ?thesis
    proof (cases "k < k1")
      case True
      with above have "\<forall>x \<in> set m. k < fst x" by auto
      with True False Cons.prems show ?thesis by (simp add: kv)
    next
      case notless: False
      with False have "k1 < k" by simp
      have "\<forall>x \<in> set (map_insert k v m). k1 < fst x"
      proof
        fix x assume "x \<in> set (map_insert k v m)"
        then have "fst x = k \<or> (fst x, snd x) \<in> set m"
          using in_map_insert[of "fst x" "snd x" k v m] by simp
        with \<open>k1 < k\<close> above show "k1 < fst x" by auto
      qed
      with False notless Cons.IH[OF sm] show ?thesis by (simp add: kv)
    qed
  qed
qed

lemma map_find_map_insert:
  "sorted_wrt (<) (map fst m) \<Longrightarrow>
   map_find k (map_insert k' v m) =
     (if k = k' then (case map_find k' m of None \<Rightarrow> Some v | Some x \<Rightarrow> Some x) else map_find k m)"
proof (induction m)
  case Nil
  then show ?case by simp
next
  case (Cons kv m)
  obtain k1 v1 where kv: "kv = (k1, v1)" by (cases kv)
  from Cons.prems have above: "\<forall>x \<in> set m. k1 < fst x" and sm: "sorted_wrt (<) (map fst m)"
    by (simp_all add: kv)
  have below: "map_find k' m = None" if "k' < k1"
  proof (rule map_find_None)
    from above that show "\<forall>x \<in> set m. fst x \<noteq> k'" by auto
  qed
  show ?case
  proof (cases "k' = k1")
    case True
    then show ?thesis by (simp add: kv)
  next
    case False
    show ?thesis
    proof (cases "k' < k1")
      case True
      with False below[OF True] show ?thesis by (auto simp: kv)
    next
      case notless: False
      with False Cons.IH[OF sm] show ?thesis by (auto simp: kv)
    qed
  qed
qed

lemma map_find_foldl_insert:
  "sorted_wrt (<) (map fst m0) \<Longrightarrow>
   map_find k (foldl (\<lambda>m kv. map_insert (fst kv) (g (snd kv)) m) m0 rx) =
     (case map_find k m0 of Some x \<Rightarrow> Some x | None \<Rightarrow> map_option g (map_find k rx))"
proof (induction rx arbitrary: m0)
  case Nil
  then show ?case by (simp split: option.splits)
next
  case (Cons kv rx)
  obtain k1 v1 where kv: "kv = (k1, v1)" by (cases kv)
  have "sorted_wrt (<) (map fst (map_insert k1 (g v1) m0))"
    using Cons.prems by (rule sorted_map_insert)
  from Cons.IH[OF this] Cons.prems show ?case
    unfolding kv by (simp add: map_find_map_insert split: option.splits)
qed

lemma map_find_read_nbytesMap:
  "map_find k (read_nbytesMap rx) = map_option (\<lambda>info. ucast (nbytesAcc info)) (map_find k rx)"
  unfolding read_nbytesMap_def
  by (subst map_find_foldl_insert[where g = "\<lambda>info. ucast (nbytesAcc info)"]) simp_all



section \<open>The throughput in the report\<close>




section \<open>Tables: membership\<close>

lemma map_find_None_iff: "map_find k m = None \<longleftrightarrow> (\<forall>v. (k, v) \<notin> set m)"
  by (induction m) (auto split: if_splits)

lemma map_find_Some_in_set: "map_find k m = Some v \<Longrightarrow> (k, v) \<in> set m"
  by (induction m) (auto split: if_splits)

lemma in_map_insert_new: "(a, b) \<in> set (map_insert k v m) \<Longrightarrow> (a = k \<and> b = v) \<or> (a, b) \<in> set m"
  by (induction m) (auto split: if_splits)

lemma map_insert_keeps: "(a, b) \<in> set m \<Longrightarrow> (a, b) \<in> set (map_insert k v m)"
  by (induction m) (auto split: if_splits)

lemma in_map_modify:
  "(a, b) \<in> set (map_modify k f m) \<Longrightarrow> (a, b) \<in> set m \<or> (a = k \<and> (\<exists>y. (k, y) \<in> set m \<and> b = f y))"
  by (induction m) (auto split: if_splits)

lemma map_modify_keeps_key: "(a, b) \<in> set m \<Longrightarrow> \<exists>b'. (a, b') \<in> set (map_modify k f m)"
  by (induction m) (auto split: if_splits)

lemma map_insert_adds: "map_find k m = None \<Longrightarrow> (k, v) \<in> set (map_insert k v m)"
  by (induction m) (auto split: if_splits)

section \<open>The names and the table read from one string\<close>

lemma names_of_Cons: "names_of (e # es) = names_of [e] @ names_of es"
  by (simp add: names_of_def)

lemma readIfnames_fold:
  "fst (foldl (\<lambda>st ientry. readIfnames_entry ientry st) (ns, l) es) = ns @ names_of es"
proof (induction es arbitrary: ns l)
  case Nil
  then show ?case by (simp add: names_of_def)
next
  case (Cons e es)
  show ?case
  proof (cases "getline_ws CHR '' '' e")
    case None
    with Cons.IH show ?thesis
      by (simp add: readIfnames_entry_def names_of_def)
  next
    case (Some nr)
    obtain n r where "nr = (n, r)" by (cases nr)
    with Some Cons.IH show ?thesis
      by (simp add: readIfnames_entry_def names_of_def)
  qed
qed

lemma readIfnames_names:
  assumes "readIfnames cfile secName = (Inr names, logs)"
  shows "\<exists>ifacesStr l0. read_ifacesStr cfile secName = (Inr ifacesStr, l0) \<and>
                        names = names_of (split_entries ifacesStr)"
proof -
  obtain r l0 where rd: "read_ifacesStr cfile secName = (r, l0)"
    by (cases "read_ifacesStr cfile secName")
  with assms obtain ifacesStr where r: "r = Inr ifacesStr"
    by (cases r) (simp_all add: readIfnames_def)
  obtain ns l where f: "foldl (\<lambda>st ientry. readIfnames_entry ientry st) ([], l0) (split_entries ifacesStr) = (ns, l)"
    by (cases "foldl (\<lambda>st ientry. readIfnames_entry ientry st) ([], l0) (split_entries ifacesStr)")
  from readIfnames_fold[of "[]" l0 "split_entries ifacesStr"] f have "ns = names_of (split_entries ifacesStr)"
    by simp
  with assms rd r f show ?thesis
    by (auto simp: readIfnames_def split: if_splits)
qed

lemma readIfaces_table:
  assumes "readIfaces inet_pton cfile secName t m = (Inr m', logs)"
  shows "\<exists>ifacesStr l0. read_ifacesStr cfile secName = (Inr ifacesStr, l0) \<and>
           m' = fst (foldl (\<lambda>st ientry. readIfaces_entry inet_pton t ientry st) (m, 0, l0)
                       (split_entries ifacesStr))"
proof -
  obtain r l0 where rd: "read_ifacesStr cfile secName = (r, l0)"
    by (cases "read_ifacesStr cfile secName")
  with assms obtain ifacesStr where r: "r = Inr ifacesStr"
    by (cases r) (simp_all add: readIfaces_def)
  obtain m1 i1 l1 where f: "foldl (\<lambda>st ientry. readIfaces_entry inet_pton t ientry st) (m, 0, l0)
                       (split_entries ifacesStr) = (m1, i1, l1)"
    by (cases "foldl (\<lambda>st ientry. readIfaces_entry inet_pton t ientry st) (m, 0, l0)
                       (split_entries ifacesStr)")
  with assms rd r show ?thesis
    by (auto simp: readIfaces_def split: if_splits)
qed

text \<open>What one entry does to the table.\<close>

lemma readIfaces_entry_cases:
  assumes "readIfaces_entry inet_pton t e (m, i, l) = (m', i', l')"
  shows "(getline_ws CHR '' '' e = None \<and> m' = m \<and> i' = i) \<or>
         (\<exists>n rest. getline_ws CHR '' '' e = Some (n, rest) \<and> i' = i + 1 \<and>
            (m' = m \<or>
             (\<exists>g. (\<forall>y. ifaceId (g y) = ifaceId y) \<and>
                  (t = CLIENT \<longrightarrow> (\<forall>y. addrSrv (g y) = addrSrv y)) \<and>
                  m' = map_modify n g
                         (if map_find n m = None then map_insert n (new_IfaceInfo i) m else m))))"
proof (cases "getline_ws CHR '' '' e")
  case None
  with assms show ?thesis
    by (simp add: readIfaces_entry_def)
next
  case (Some nr)
  obtain n rest where nr: "nr = (n, rest)" by (cases nr)
  show ?thesis
  proof (cases "getline_ws CHR '' '' rest")
    case None
    with assms Some nr show ?thesis
      by (simp add: readIfaces_entry_def)
  next
    case inner: (Some ar)
    obtain a r where ar: "ar = (a, r)" by (cases ar)
    show ?thesis
    proof (cases "inet_pton a")
      case False
      with assms Some nr inner ar show ?thesis
        by (simp add: readIfaces_entry_def)
    next
      case True
      define g where "g = (if t = SERVER then (\<lambda>info :: IfaceInfo. info\<lparr>addrSrv := a\<rparr>)
                           else (\<lambda>info. info\<lparr>addrCli := a\<rparr>))"
      have gid: "\<forall>y. ifaceId (g y) = ifaceId y"
        by (simp add: g_def)
      have gsrv: "t = CLIENT \<longrightarrow> (\<forall>y. addrSrv (g y) = addrSrv y)"
        by (simp add: g_def)
      from assms Some nr inner ar True
      have "m' = map_modify n g (if map_find n m = None then map_insert n (new_IfaceInfo i) m else m)"
        and "i' = i + 1"
        by (auto simp: readIfaces_entry_def Let_def g_def)
      with Some nr gid gsrv show ?thesis
        by auto
    qed
  qed
qed

text \<open>
  The first reading, from an empty table. While the names read so far are distinct,
  the counter is their number, and every name in the table has its position in the
  list of names as identifier.
\<close>

lemma readIfaces_entry_first:
  assumes run: "readIfaces_entry inet_pton t e (m, i, l) = (m', i', l')"
    and i: "i = int (length ns)"
    and ids: "\<forall>k info. (k, info) \<in> set m \<longrightarrow>
                k \<in> set ns \<and> (\<forall>p < length ns. ns ! p = k \<longrightarrow> ifaceId info = int p)"
    and dist: "distinct (ns @ names_of [e])"
  shows "i' = int (length (ns @ names_of [e])) \<and>
         (\<forall>k info. (k, info) \<in> set m' \<longrightarrow>
            k \<in> set (ns @ names_of [e]) \<and>
            (\<forall>p < length (ns @ names_of [e]). (ns @ names_of [e]) ! p = k \<longrightarrow> ifaceId info = int p))"
proof -
  from readIfaces_entry_cases[OF run] consider
    (noname) "getline_ws CHR '' '' e = None" "m' = m" "i' = i"
    | (skipped) n rest where "getline_ws CHR '' '' e = Some (n, rest)" "i' = i + 1" "m' = m"
    | (stored) n rest g where "getline_ws CHR '' '' e = Some (n, rest)" "i' = i + 1"
        "\<forall>y. ifaceId (g y) = ifaceId y"
        "m' = map_modify n g (if map_find n m = None then map_insert n (new_IfaceInfo i) m else m)"
    by (elim disjE exE conjE) auto
  then show ?thesis
  proof cases
    case noname
    then have "names_of [e] = []" by (simp add: names_of_def)
    with noname i ids show ?thesis by simp
  next
    case skipped
    then have ne: "names_of [e] = [n]" by (simp add: names_of_def)
    with dist have fresh: "n \<notin> set ns" by simp
    have "k \<in> set (ns @ [n]) \<and> (\<forall>p < length (ns @ [n]). (ns @ [n]) ! p = k \<longrightarrow> ifaceId info = int p)"
      if old: "(k, info) \<in> set m" for k info
    proof -
      from old ids have k: "k \<in> set ns" and id: "\<forall>p < length ns. ns ! p = k \<longrightarrow> ifaceId info = int p"
        by blast+
      have "ifaceId info = int p" if "p < length (ns @ [n])" "(ns @ [n]) ! p = k" for p
      proof (cases "p < length ns")
        case True
        with that id show ?thesis by (simp add: nth_append)
      next
        case False
        with that have "k = n" by (simp add: nth_append)
        with k fresh show ?thesis by simp
      qed
      with k show ?thesis by simp
    qed
    with skipped(2,3) i show ?thesis
      unfolding ne by simp
  next
    case stored
    then have ne: "names_of [e] = [n]" by (simp add: names_of_def)
    with dist have fresh: "n \<notin> set ns" by simp
    with ids have absent: "map_find n m = None"
      by (auto simp: map_find_None_iff)
    define m1 where "m1 = map_insert n (new_IfaceInfo i) m"
    have m': "m' = map_modify n g m1"
      using stored(4) absent by (simp add: m1_def)
    have in1: "(k = n \<and> info = new_IfaceInfo i) \<or> (k, info) \<in> set m" if "(k, info) \<in> set m1" for k info
      using that in_map_insert_new[of k info n "new_IfaceInfo i" m] by (simp add: m1_def)
    have ids1: "k \<in> set (ns @ [n]) \<and> (\<forall>p < length (ns @ [n]). (ns @ [n]) ! p = k \<longrightarrow> ifaceId info = int p)"
      if "(k, info) \<in> set m1" for k info
    proof -
      from in1[OF that] show ?thesis
      proof
        assume new: "k = n \<and> info = new_IfaceInfo i"
        have "p = length ns" if "p < length (ns @ [n])" "(ns @ [n]) ! p = n" for p
          using that fresh by (cases "p < length ns") (auto simp: nth_append)
        with new i show ?thesis
          by (auto simp: new_IfaceInfo_def)
      next
        assume old: "(k, info) \<in> set m"
        with ids have k: "k \<in> set ns" and id: "\<forall>p < length ns. ns ! p = k \<longrightarrow> ifaceId info = int p"
          by blast+
        have "ifaceId info = int p" if "p < length (ns @ [n])" "(ns @ [n]) ! p = k" for p
        proof (cases "p < length ns")
          case True
          with that id show ?thesis by (simp add: nth_append)
        next
          case False
          with that have "k = n" by (simp add: nth_append)
          with k fresh show ?thesis by simp
        qed
        with k show ?thesis by simp
      qed
    qed
    have c2: "k \<in> set (ns @ [n]) \<and> (\<forall>p < length (ns @ [n]). (ns @ [n]) ! p = k \<longrightarrow> ifaceId info = int p)"
      if "(k, info) \<in> set m'" for k info
    proof -
      from that have "(k, info) \<in> set m1 \<or> (k = n \<and> (\<exists>y. (n, y) \<in> set m1 \<and> info = g y))"
        using in_map_modify[of k info n g m1] by (simp add: m')
      then show ?thesis
      proof
        assume "(k, info) \<in> set m1"
        then show ?thesis by (rule ids1)
      next
        assume "k = n \<and> (\<exists>y. (n, y) \<in> set m1 \<and> info = g y)"
        then obtain y where y: "k = n" "(n, y) \<in> set m1" "info = g y" by blast
        from ids1[OF y(2)] y(1,3) stored(3) show ?thesis by simp
      qed
    qed
    from stored(2) i c2 show ?thesis
      unfolding ne by simp
  qed
qed

lemma readIfaces_fold_first:
  assumes "i = int (length ns)"
    and "\<forall>k info. (k, info) \<in> set m \<longrightarrow>
           k \<in> set ns \<and> (\<forall>p < length ns. ns ! p = k \<longrightarrow> ifaceId info = int p)"
    and "distinct (ns @ names_of es)"
  shows "\<forall>k info. (k, info) \<in> set (fst (foldl (\<lambda>st ientry. readIfaces_entry inet_pton t ientry st) (m, i, l) es)) \<longrightarrow>
            (\<forall>p < length (ns @ names_of es). (ns @ names_of es) ! p = k \<longrightarrow> ifaceId info = int p)"
  using assms
proof (induction es arbitrary: m i l ns)
  case Nil
  then show ?case by (simp add: names_of_def)
next
  case (Cons e es)
  obtain m' i' l' where step: "readIfaces_entry inet_pton t e (m, i, l) = (m', i', l')"
    by (cases "readIfaces_entry inet_pton t e (m, i, l)")
  have split: "ns @ names_of (e # es) = (ns @ names_of [e]) @ names_of es"
    by (simp add: names_of_Cons[of e es])
  from Cons.prems(3) have d1: "distinct (ns @ names_of [e])" and d2: "distinct ((ns @ names_of [e]) @ names_of es)"
    unfolding split by auto
  from readIfaces_entry_first[OF step Cons.prems(1,2) d1] have
    "i' = int (length (ns @ names_of [e]))"
    "\<forall>k info. (k, info) \<in> set m' \<longrightarrow>
            k \<in> set (ns @ names_of [e]) \<and>
            (\<forall>p < length (ns @ names_of [e]). (ns @ names_of [e]) ! p = k \<longrightarrow> ifaceId info = int p)"
    by blast+
  from Cons.IH[OF this d2] step show ?case
    unfolding split by simp
qed

text \<open>
  The second reading, of the sender's section: an entry it adds has no server address,
  and an entry it writes keeps its server address and its identifier.
\<close>

lemma readIfaces_entry_second:
  assumes run: "readIfaces_entry inet_pton CLIENT e (m, i, l) = (m', i', l')"
    and inv: "\<forall>k info. (k, info) \<in> set m \<longrightarrow>
                addrSrv info = [] \<or> (\<forall>p < length names. names ! p = k \<longrightarrow> ifaceId info = int p)"
  shows "\<forall>k info. (k, info) \<in> set m' \<longrightarrow>
           addrSrv info = [] \<or> (\<forall>p < length names. names ! p = k \<longrightarrow> ifaceId info = int p)"
proof -
  from readIfaces_entry_cases[OF run] consider
    (same) "m' = m"
    | (stored) n g where "\<forall>y. ifaceId (g y) = ifaceId y" "\<forall>y. addrSrv (g y) = addrSrv y"
        "m' = map_modify n g (if map_find n m = None then map_insert n (new_IfaceInfo i) m else m)"
    by (elim disjE exE conjE) auto
  then show ?thesis
  proof cases
    case same
    with inv show ?thesis by simp
  next
    case stored
    define m1 where "m1 = (if map_find n m = None then map_insert n (new_IfaceInfo i) m else m)"
    have inv1: "addrSrv info = [] \<or> (\<forall>p < length names. names ! p = k \<longrightarrow> ifaceId info = int p)"
      if "(k, info) \<in> set m1" for k info
    proof (cases "(k, info) \<in> set m")
      case True
      with inv show ?thesis by blast
    next
      case False
      with that have "info = new_IfaceInfo i"
        using in_map_insert_new[of k info n "new_IfaceInfo i" m]
        by (auto simp: m1_def split: if_splits)
      then show ?thesis by (simp add: new_IfaceInfo_def)
    qed
    have "addrSrv info = [] \<or> (\<forall>p < length names. names ! p = k \<longrightarrow> ifaceId info = int p)"
      if "(k, info) \<in> set m'" for k info
    proof -
      from that have "(k, info) \<in> set m1 \<or> (k = n \<and> (\<exists>y. (n, y) \<in> set m1 \<and> info = g y))"
        using in_map_modify[of k info n g m1] by (simp add: stored(3) m1_def)
      then show ?thesis
      proof
        assume "(k, info) \<in> set m1"
        then show ?thesis by (rule inv1)
      next
        assume "k = n \<and> (\<exists>y. (n, y) \<in> set m1 \<and> info = g y)"
        then obtain y where y: "k = n" "(n, y) \<in> set m1" "info = g y" by blast
        from inv1[OF y(2)] y(1,3) stored(1,2) show ?thesis by simp
      qed
    qed
    then show ?thesis by blast
  qed
qed

lemma readIfaces_fold_second:
  assumes "\<forall>k info. (k, info) \<in> set m \<longrightarrow>
             addrSrv info = [] \<or> (\<forall>p < length names. names ! p = k \<longrightarrow> ifaceId info = int p)"
  shows "\<forall>k info. (k, info) \<in> set (fst (foldl (\<lambda>st ientry. readIfaces_entry inet_pton CLIENT ientry st) (m, i, l) es)) \<longrightarrow>
           addrSrv info = [] \<or> (\<forall>p < length names. names ! p = k \<longrightarrow> ifaceId info = int p)"
  using assms
proof (induction es arbitrary: m i l)
  case Nil
  then show ?case by simp
next
  case (Cons e es)
  obtain m' i' l' where step: "readIfaces_entry inet_pton CLIENT e (m, i, l) = (m', i', l')"
    by (cases "readIfaces_entry inet_pton CLIENT e (m, i, l)")
  from readIfaces_entry_second[OF step Cons.prems]
  have "\<forall>k info. (k, info) \<in> set m' \<longrightarrow>
           addrSrv info = [] \<or> (\<forall>p < length names. names ! p = k \<longrightarrow> ifaceId info = int p)" .
  from Cons.IH[OF this] step show ?case by simp
qed

section \<open>The table of the receiver\<close>

lemma and_then_Inr:
  assumes "and_then r f = (Inr b, logs)"
  shows "\<exists>a l1 l2. r = (Inr a, l1) \<and> f a = (Inr b, l2)"
proof -
  obtain x l1 where r: "r = (x, l1)" by (cases r)
  with assms obtain a where x: "x = Inr a"
    by (cases x) (simp_all add: and_then_def)
  obtain y l2 where f: "f a = (y, l2)" by (cases "f a")
  with assms r x have "y = Inr b" by (simp add: and_then_def)
  with r x f show ?thesis by simp
qed

lemma DataReceiver_readConfig_table:
  assumes "DataReceiver_readConfig inet_pton cfile = (Inr rc, logs)"
  shows "\<exists>m1 l1 m2 l2.
           readIfaces inet_pton cfile ''data-receiver'' SERVER [] = (Inr m1, l1) \<and>
           readIfaces inet_pton cfile ''data-sender'' CLIENT m1 = (Inr m2, l2) \<and>
           rxIfaceMap rc = erase_incomplete m2"
proof -
  from and_then_Inr[OF assms[unfolded DataReceiver_readConfig_def]]
  obtain la where "and_then (data_plane_ifaces inet_pton cfile) (\<lambda>(pSrv, pCli, m).
       if m = []
       then (Inl (Exit 1),
             [Log FATAL ''Config exception: section=data-receiver/data-sender, value=ifaces. Don't have any matching receiver/sender interface pairs.''])
       else (Inr \<lparr>portSrv = pSrv, portCli = pCli, rxIfaceMap = m,
                  nbytes_reset_value = map (\<lambda>kv. (fst kv, 0)) m\<rparr>, [])) = (Inr rc, la)"
    by blast
  from and_then_Inr[OF this] obtain pSrv pCli m lb lc where
    dp: "data_plane_ifaces inet_pton cfile = (Inr (pSrv, pCli, m), lb)"
    and rc: "(if m = []
       then (Inl (Exit 1),
             [Log FATAL ''Config exception: section=data-receiver/data-sender, value=ifaces. Don't have any matching receiver/sender interface pairs.''])
       else (Inr \<lparr>portSrv = pSrv, portCli = pCli, rxIfaceMap = m,
                  nbytes_reset_value = map (\<lambda>kv. (fst kv, 0)) m\<rparr>, [])) = (Inr rc, lc)"
    by auto
  from rc have m: "rxIfaceMap rc = m"
    by (auto split: if_splits)
  from and_then_Inr[OF dp[unfolded data_plane_ifaces_def]] obtain a l0 where
    "and_then (readIfaces inet_pton cfile ''data-receiver'' SERVER []) (\<lambda>m1.
     and_then (readPort cfile ''data-sender'' PORT_CLI_DEF) (\<lambda>pCli.
     and_then (readIfaces inet_pton cfile ''data-sender'' CLIENT m1) (\<lambda>m2.
       (Inr (a, pCli, erase_incomplete m2), [])))) = (Inr (pSrv, pCli, m), l0)"
    by blast
  from and_then_Inr[OF this] obtain m1 l1 l1' where
    r1: "readIfaces inet_pton cfile ''data-receiver'' SERVER [] = (Inr m1, l1)"
    and "and_then (readPort cfile ''data-sender'' PORT_CLI_DEF) (\<lambda>pCli.
     and_then (readIfaces inet_pton cfile ''data-sender'' CLIENT m1) (\<lambda>m2.
       (Inr (a, pCli, erase_incomplete m2), []))) = (Inr (pSrv, pCli, m), l1')"
    by blast
  from and_then_Inr[OF this(2)] obtain p l2' where
    "and_then (readIfaces inet_pton cfile ''data-sender'' CLIENT m1) (\<lambda>m2.
       (Inr (a, p, erase_incomplete m2), [])) = (Inr (pSrv, pCli, m), l2')"
    by blast
  from and_then_Inr[OF this] obtain m2 l2 where
    r2: "readIfaces inet_pton cfile ''data-sender'' CLIENT m1 = (Inr m2, l2)"
    and "m = erase_incomplete m2"
    by auto
  with r1 m show ?thesis by blast
qed

lemma configured_ifaceId:
  assumes cfg: "DataReceiver_readConfig inet_pton cfile = (Inr rc, logs)"
    and names: "readIfnames cfile ''data-receiver'' = (Inr names, logs')"
    and dist: "distinct names"
    and found: "map_find k (rxIfaceMap rc) = Some info"
    and p: "p < length names" "names ! p = k"
  shows "ifaceId info = int p"
proof -
  from DataReceiver_readConfig_table[OF cfg] obtain m1 l1 m2 l2 where
    r1: "readIfaces inet_pton cfile ''data-receiver'' SERVER [] = (Inr m1, l1)"
    and r2: "readIfaces inet_pton cfile ''data-sender'' CLIENT m1 = (Inr m2, l2)"
    and rx: "rxIfaceMap rc = erase_incomplete m2"
    by blast
  from readIfnames_names[OF names] obtain str l0 where
    str: "read_ifacesStr cfile ''data-receiver'' = (Inr str, l0)"
    and ns: "names = names_of (split_entries str)"
    by blast
  from readIfaces_table[OF r1] str have
    m1: "m1 = fst (foldl (\<lambda>st ientry. readIfaces_entry inet_pton SERVER ientry st) ([], 0, l0)
                       (split_entries str))"
    by simp
  have ids1: "\<forall>k info. (k, info) \<in> set m1 \<longrightarrow>
            (\<forall>p < length names. names ! p = k \<longrightarrow> ifaceId info = int p)"
    using readIfaces_fold_first[of 0 "[]" "[]" "split_entries str" inet_pton SERVER l0] dist
    by (simp add: m1 ns)
  from readIfaces_table[OF r2] obtain str2 l3 where
    m2: "m2 = fst (foldl (\<lambda>st ientry. readIfaces_entry inet_pton CLIENT ientry st) (m1, 0, l3)
                       (split_entries str2))"
    by blast
  from ids1 have "\<forall>k info. (k, info) \<in> set m1 \<longrightarrow>
             addrSrv info = [] \<or> (\<forall>p < length names. names ! p = k \<longrightarrow> ifaceId info = int p)"
    by blast
  from readIfaces_fold_second[OF this, of inet_pton 0 l3 "split_entries str2"]
  have ids2: "\<forall>k info. (k, info) \<in> set m2 \<longrightarrow>
             addrSrv info = [] \<or> (\<forall>p < length names. names ! p = k \<longrightarrow> ifaceId info = int p)"
    by (simp add: m2)
  from map_find_Some_in_set[OF found] have "(k, info) \<in> set m2" "addrSrv info \<noteq> []"
    by (simp_all add: rx erase_incomplete_def)
  with ids2 p show ?thesis by blast
qed

section \<open>The index of a block and the identifier of its interface\<close>

lemma load_store_u32: "load_u32 le (store_u32 le w) = w"
  by (simp add: load_u32_def store_u32_def u32_of_le_bytes_le_bytes)

lemma map_find_same_ids:
  assumes "map (\<lambda>kv. (fst kv, f (snd kv))) m = map (\<lambda>kv. (fst kv, f (snd kv))) m'"
    and "map_find k m = Some v"
  shows "\<exists>v'. map_find k m' = Some v' \<and> f v' = f v"
  using assms
proof (induction m arbitrary: m')
  case Nil
  then show ?case by simp
next
  case (Cons a m)
  then obtain a' m'' where m': "m' = a' # m''" by (cases m') auto
  obtain k1 v1 where a: "a = (k1, v1)" by (cases a)
  obtain k2 v2 where a': "a' = (k2, v2)" by (cases a')
  from Cons.prems(1) have hd: "k1 = k2" "f v1 = f v2"
    and tl: "map (\<lambda>kv. (fst kv, f (snd kv))) m = map (\<lambda>kv. (fst kv, f (snd kv))) m''"
    by (simp_all add: m' a a')
  show ?case
  proof (cases "k = k1")
    case True
    with Cons.prems(2) hd show ?thesis by (simp add: m' a a')
  next
    case False
    with Cons.prems(2) have "map_find k m = Some v" by (simp add: a)
    from Cons.IH[OF tl this] False hd show ?thesis by (simp add: m' a')
  qed
qed

lemma block_index:
  assumes "reachable le feedbackInterval names fs"
    and "4 + 40 * length names < 2 ^ 31"
    and "build_report le feedbackInterval names now rx reset fs = Inr (buffer, fs', reset')"
    and "i < length names"
  shows "load_u32 le (take 4 (drop (4 + 40 * i) buffer)) = of_nat i"
proof -
  from reachable_info_ok[OF assms(1)] have ok: "info_ok (tInfo fs)" "info_ok (tm1Info fs)"
    by simp_all
  have "take 4 (drop (4 + 40 * i) buffer) = take 4 (take 40 (drop (4 + 40 * i) buffer))"
    by simp
  also have "\<dots> = take 4 (block_bytes le i (samples_of feedbackInterval now rx fs (names ! i)))"
    by (simp only: build_report_block[OF ok assms(2,3,4)])
  also have "\<dots> = store_u32 le (of_nat i)"
    by (simp add: block_bytes_def length_store_u32)
  finally show ?thesis
    by (simp add: load_store_u32)
qed

text \<open>
  C6, as stated, fails for a configuration that names an interface twice: \<^verbatim>\<open>readIfaces\<close>
  gives the interface \<^verbatim>\<open>a\<close> the identifier 0 at its first entry and keeps it at the
  second, \<^verbatim>\<open>readIfnames\<close> lists the name twice, and the second block of the report
  carries the index 1.
\<close>

theorem duplicate_name_index_not_ifaceId:
  "DataReceiver_readConfig inet_pton4 cfg_dup = (Inr dup_rc, [Log MSG ''Starting program...'']) \<and>
   readIfnames cfg_dup ''data-receiver'' = (Inr dup_names, []) \<and>
   map_option ifaceId (map_find (dup_names ! 1) (rxIfaceMap dup_rc)) = Some 0 \<and>
   map_option ifaceId (map_find (dup_names ! 1) dup_rx) = Some 0 \<and>
   reachable True 100 dup_names demo_fs \<and>
   build_report True 100 dup_names 1000 dup_rx (nbytes_reset_value dup_rc) demo_fs
     = Inr (dup_report, dup_fs', [(''a'', 1250)]) \<and>
   load_u32 True (take 4 (drop (4 + 40 * 1) dup_report)) = 1 \<and>
   (1 :: u32) \<noteq> word_of_int 0"
proof -
  have "DataReceiver_readConfig inet_pton4 cfg_dup = (Inr dup_rc, [Log MSG ''Starting program...''])"
    by code_simp
  moreover have "readIfnames cfg_dup ''data-receiver'' = (Inr dup_names, [])"
    by code_simp
  moreover have "map_option ifaceId (map_find (dup_names ! 1) (rxIfaceMap dup_rc)) = Some 0"
    by (simp add: dup_names_def dup_rc_def)
  moreover have "map_option ifaceId (map_find (dup_names ! 1) dup_rx) = Some 0"
    by (simp add: dup_names_def dup_rx_def)
  moreover have "reachable True 100 dup_names demo_fs"
    unfolding demo_fs_def by (rule reachable.start)
  moreover have "build_report True 100 dup_names 1000 dup_rx (nbytes_reset_value dup_rc) demo_fs
     = Inr (dup_report, dup_fs', [(''a'', 1250)])"
    by code_simp
  moreover have "load_u32 True (take 4 (drop (4 + 40 * 1) dup_report)) = 1"
    by code_simp
  ultimately show ?thesis by simp
qed

text \<open>
  C6, amended: \<^verbatim>\<open>commThread\<close> writes the position of the name in
  \<^verbatim>\<open>dataReceiverIfnames\<close>, not the \<^verbatim>\<open>ifaceId\<close> of the table. When the names of the
  receiver's \<^verbatim>\<open>ifaces\<close> list are distinct the two are equal: in every report built in a
  reachable state, from a table that has the names and identifiers of the configured
  one, block \<open>i\<close> holds, in the host's byte order, the \<^verbatim>\<open>ifaceId\<close> of the interface
  \<open>names ! i\<close>, which is \<open>i\<close>.
\<close>

theorem index_is_ifaceId:
  assumes "DataReceiver_readConfig inet_pton cfile = (Inr rc, logs)"
    and "readIfnames cfile ''data-receiver'' = (Inr names, logs')"
    and "distinct names"
    and "map (\<lambda>kv. (fst kv, ifaceId (snd kv))) rx = map (\<lambda>kv. (fst kv, ifaceId (snd kv))) (rxIfaceMap rc)"
    and "reachable le feedbackInterval names fs"
    and "4 + 40 * length names < 2 ^ 31"
    and "build_report le feedbackInterval names now rx reset fs = Inr (buffer, fs', reset')"
  shows "\<forall>i < length names. \<exists>info.
           map_find (names ! i) rx = Some info \<and>
           load_u32 le (take 4 (drop (4 + 40 * i) buffer)) = word_of_int (ifaceId info) \<and>
           ifaceId info = int i"
proof (intro allI impI)
  fix i
  assume i: "i < length names"
  then have "names ! i \<in> set names" by simp
  from build_report_found[OF assms(7) this] obtain nb where
    "map_find (names ! i) (read_nbytesMap rx) = Some nb"
    by blast
  then obtain info where info: "map_find (names ! i) rx = Some info"
    by (auto simp: map_find_read_nbytesMap)
  from map_find_same_ids[OF assms(4) info] obtain info0 where
    info0: "map_find (names ! i) (rxIfaceMap rc) = Some info0" "ifaceId info0 = ifaceId info"
    by blast
  from configured_ifaceId[OF assms(1,2,3) info0(1) i] info0(2) have id: "ifaceId info = int i"
    by simp
  from block_index[OF assms(5,6,7) i] have "load_u32 le (take 4 (drop (4 + 40 * i) buffer)) = of_nat i" .
  with info id show "\<exists>info.
           map_find (names ! i) rx = Some info \<and>
           load_u32 le (take 4 (drop (4 + 40 * i) buffer)) = word_of_int (ifaceId info) \<and>
           ifaceId info = int i"
    by simp
qed


lemma demo_cfg_read:
  "DataReceiver_readConfig inet_pton4 demo_cfg = (Inr demo_rc, [Log MSG ''Starting program...''])"
  by code_simp

lemma demo_cfg_names: "readIfnames demo_cfg ''data-receiver'' = (Inr demo_names, [])"
  by code_simp

lemma demo_cfg_rx_ids:
  "map (\<lambda>kv. (fst kv, ifaceId (snd kv))) demo_cfg_rx = map (\<lambda>kv. (fst kv, ifaceId (snd kv))) (rxIfaceMap demo_rc)"
  by (simp add: demo_cfg_rx_def demo_rc_def)

lemma demo_cfg_build:
  "build_report True 100 demo_names 1000 demo_cfg_rx demo_reset demo_fs
     = Inr (demo_report, demo_fs', demo_reset')"
  by code_simp

theorem index_is_ifaceId_witness:
  "DataReceiver_readConfig inet_pton4 demo_cfg = (Inr demo_rc, [Log MSG ''Starting program...'']) \<and>
   readIfnames demo_cfg ''data-receiver'' = (Inr demo_names, []) \<and>
   distinct demo_names \<and>
   reachable True 100 demo_names demo_fs \<and>
   4 + 40 * length demo_names < (2::nat) ^ 31 \<and>
   build_report True 100 demo_names 1000 demo_cfg_rx demo_reset demo_fs
     = Inr (demo_report, demo_fs', demo_reset') \<and>
   map_option ifaceId (map_find (demo_names ! 1) demo_cfg_rx) = Some 1 \<and>
   load_u32 True (take 4 (drop (4 + 40 * 1) demo_report)) = 1"
proof -
  have d: "distinct demo_names"
    by (simp add: demo_names_def)
  note r = index_is_ifaceId[OF demo_cfg_read demo_cfg_names d demo_cfg_rx_ids demo_reachable demo_bound demo_cfg_build]
  have l: "(1::nat) < length demo_names"
    by (simp add: demo_names_def)
  from r l obtain info where info: "map_find (demo_names ! 1) demo_cfg_rx = Some info"
    "load_u32 True (take 4 (drop (4 + 40 * 1) demo_report)) = word_of_int (ifaceId info)"
    "ifaceId info = int 1"
    by blast
  from info(1,3) have c1: "map_option ifaceId (map_find (demo_names ! 1) demo_cfg_rx) = Some 1"
    by simp
  from info(2,3) have c2: "load_u32 True (take 4 (drop (4 + 40 * 1) demo_report)) = 1"
    by simp
  from demo_cfg_read demo_cfg_names d demo_reachable demo_bound demo_cfg_build c1 c2
  show ?thesis by blast
qed


section \<open>Closing the sockets twice, stopping twice\<close>

lemma closed_fds_append: "closed_fds (es @ fs) = closed_fds es @ closed_fds fs"
  by (induction es rule: closed_fds.induct) simp_all

lemma closed_fds_map_Close: "closed_fds (map Close fds) = fds"
  by (induction fds) simp_all

text \<open>
  \<^verbatim>\<open>closeIfaceSocks\<close> never writes the interface table and passes to \<^verbatim>\<open>close\<close>
  exactly the descriptors that differ from \<^verbatim>\<open>UNINITIALIZED_FD\<close>, so a second call
  repeats the closes of the first; \<^verbatim>\<open>stopThread\<close> closes nothing, and calling it
  twice leaves the same flag and table as calling it once.
\<close>

lemma closeIfaceSocks_stopThread_repeat:
  "ifaceMap (closeIfaceSocks d) = ifaceMap d \<and>
   closed_fds (effects (closeIfaceSocks d)) =
     closed_fds (effects d) @ socks_to_close (ifaceMap d) \<and>
   closed_fds (effects (closeIfaceSocks (closeIfaceSocks d))) =
     closed_fds (effects d) @ socks_to_close (ifaceMap d) @ socks_to_close (ifaceMap d) \<and>
   UNINITIALIZED_FD \<notin> set (socks_to_close (ifaceMap d)) \<and>
   closed_fds (effects (stopThread (stopThread d))) = closed_fds (effects d) \<and>
   ifaceMap (stopThread (stopThread d)) = ifaceMap d \<and>
   endProgram (stopThread (stopThread d)) = endProgram (stopThread d)"
  by (simp add: closeIfaceSocks_def stopThread_def closed_fds_append closed_fds_map_Close
      socks_to_close_def)

text \<open>
  The sender in broadcast mode closes every open socket twice after one stop, whatever
  the table holds.
\<close>

lemma DataSender_commThread_end_closes_twice:
  "closed_fds (effects (DataSender_commThread_end 0 (stopThread d))) =
     closed_fds (effects d) @ socks_to_close (ifaceMap d) @ socks_to_close (ifaceMap d)"
  by (simp add: DataSender_commThread_end_def sendEveryInterface_end_def closeIfaceSocks_def
      stopThread_def closed_fds_append closed_fds_map_Close)

text \<open>
  C9 fails in the code: with one open socket (descriptor 3) the first call of
  \<^verbatim>\<open>closeIfaceSocks\<close> closes 3 and leaves 3 in the table, where the sentinel
  \<^verbatim>\<open>UNINITIALIZED_FD\<close> would mark it as not to be closed; the second call closes 3
  again. The program does so itself: after one \<^verbatim>\<open>stopThread\<close> the sender in broadcast
  mode (decision level 0) runs \<^verbatim>\<open>closeIfaceSocks\<close> at the end of
  \<^verbatim>\<open>sendEveryInterface\<close> and again at the end of \<^verbatim>\<open>commThread\<close>.
\<close>

theorem closeIfaceSocks_twice_closes_again:
  "closed_fds (effects (closeIfaceSocks one_open_socket)) = [3] \<and>
   map_option sockfd (map_find ''lo'' (ifaceMap (closeIfaceSocks one_open_socket))) = Some 3 \<and>
   closed_fds (effects (closeIfaceSocks (closeIfaceSocks one_open_socket))) = [3, 3] \<and>
   closed_fds (effects (DataSender_commThread_end 0 (stopThread one_open_socket))) = [3, 3]"
  by (simp add: closeIfaceSocks_def one_open_socket_def socks_to_close_def lo_info_def
      UNINITIALIZED_FD_def DataSender_commThread_end_def sendEveryInterface_end_def
      stopThread_def)

section \<open>Configuration fallbacks\<close>

text \<open>
  An out-of-range port is replaced by the default and logged, as C7 says.
\<close>

lemma readPort_out_of_range_80:
  "fst (readPort cfg_port_80 ''data-receiver'' PORT_SRV_DEF) = Inr PORT_SRV_DEF \<and>
   length (snd (readPort cfg_port_80 ''data-receiver'' PORT_SRV_DEF)) = 1"
  by (simp add: readPort_def cfg_port_80_def Value_def stoi_def isspace_def isdigit_def
      digits_value_def Let_def)

text \<open>
  C7 at a configuration without a \<^verbatim>\<open>port\<close> key: \<^verbatim>\<open>Value\<close> throws a
  \<^verbatim>\<open>std::runtime_error\<close>, the handler of \<^verbatim>\<open>readPort\<close> takes only a
  \<^verbatim>\<open>char const*\<close>, so no default is used, nothing is logged, and the exception ends
  the process.
\<close>

theorem missing_port_terminates:
  "readPort cfg_no_port ''data-receiver'' PORT_SRV_DEF =
     (Inl (Thrown (runtime_error ''does not exist'')), []) \<and>
   fst (dreceiver_main_config inet_pton cfg_no_port) =
     Terminated (Thrown (runtime_error ''does not exist''))"
  by (simp add: readPort_def cfg_no_port_def Value_def dreceiver_main_config_def
      DataReceiver_readConfig_def data_plane_ifaces_def and_then_def readAndSetLogLevel_def
      stoi_def isspace_def isdigit_def digits_value_def Let_def NLOG_LEVELS_def)

section \<open>The random pick\<close>

lemma advance_length: "advance (length m) m = Inr []"
  by (induction m) simp_all

lemma advance_drop: "n \<le> length m \<Longrightarrow> advance n m = Inr (drop n m)"
proof (induction n arbitrary: m)
  case 0
  then show ?case by simp
next
  case (Suc n)
  then obtain kv m' where "m = kv # m'" by (cases m) auto
  with Suc show ?case by simp
qed

text \<open>
  A draw below the size picks the entry at that position; the draw of the size itself,
  which the distribution allows, picks none.
\<close>

lemma pickRandomIface_below_size:
  assumes "draw (int (length m)) = Some idx" and "0 \<le> idx" and "idx < int (length m)"
  shows "pickRandomIface draw m = Some (Inr (fst (m ! nat idx)))"
proof -
  from assms(2,3) have n: "nat idx < length m" by simp
  then have "drop (nat idx) m = m ! nat idx # drop (Suc (nat idx)) m"
    by (simp add: Cons_nth_drop_Suc)
  with n assms(1) show ?thesis
    by (simp add: pickRandomIface_def advance_drop deref_first_def)
qed

lemma pickRandomIface_at_size:
  assumes "draw (int (length m)) = Some (int (length m))"
  shows "pickRandomIface draw m = Some (Inl (Undefined ''end iterator dereferenced''))"
  using assms by (simp add: pickRandomIface_def advance_length deref_first_def)


text \<open>
  C8: the distribution ranges over 0..size, and with one interface in the table (the
  default configuration) the GNU library draws 1, the index of \<^verbatim>\<open>end()\<close>: the pick
  is no element of the table.
\<close>

theorem pickRandomIface_one_interface:
  "gnu_draw 1 = Some 1 \<and>
   pickRandomIface gnu_draw [(''lo'', lo_info)] =
     Some (Inl (Undefined ''end iterator dereferenced''))"
proof -
  have "gnu_draw 1 = downscale 123123123 1073741822 2147483644"
    by (simp add: gnu_draw_def Let_def)
  also have "\<dots> = Some 1"
    by (subst downscale.simps) (simp add: minstd_rand0_def Let_def)
  finally have d: "gnu_draw 1 = Some 1" .
  show ?thesis
    by (simp add: d pickRandomIface_def deref_first_def)
qed

section \<open>The byte counter handoff\<close>

text \<open>
  In every run the counter is the bytes received less the amounts subtracted, modulo
  \<open>2\<^sup>6\<^sup>4\<close>.
\<close>

lemma run_counter:
  "run h es = Some h' \<Longrightarrow> acc h' = acc h + word_of_int (received es) - word_of_int (drained h es)"
proof (induction es arbitrary: h)
  case Nil
  then show ?case by simp
next
  case (Cons e es)
  then obtain h1 where s: "step h e = Some h1" and r: "run h1 es = Some h'"
    by (auto split: option.splits)
  from Cons.IH[OF r] have ih: "acc h' = acc h1 + word_of_int (received es) - word_of_int (drained h1 es)" .
  show ?case
  proof (cases e)
    case (WorkerRecv n)
    with s have "acc h1 = acc h + word_of_int n"
      by (auto split: if_splits)
    with ih s WorkerRecv show ?thesis by simp
  next
    case WorkerDrain
    with s have "acc h1 = acc h - ucast (pending h)"
      by (cases "pending h = 0") (auto simp: word_greater_zero_iff)
    with ih s WorkerDrain show ?thesis by simp
  next
    case FeedbackRead
    with s have "acc h1 = acc h" by auto
    with ih s FeedbackRead show ?thesis by simp
  next
    case FeedbackWrite
    with s have "acc h1 = acc h" by (auto split: option.splits)
    with ih s FeedbackWrite show ?thesis by simp
  qed
qed

lemma uint_ucast_le: "uint (ucast (a :: u64) :: u32) \<le> uint a"
proof -
  have "uint (ucast a :: u32) = uint a mod 2 ^ 32"
    by (simp add: unsigned_ucast_eq take_bit_eq_mod)
  also have "\<dots> \<le> uint a"
    by (rule zmod_le_nonneg_dividend) simp
  finally show ?thesis .
qed

lemma received_nonneg: "run h es = Some h' \<Longrightarrow> 0 \<le> received es"
proof (induction es arbitrary: h)
  case Nil
  then show ?case by simp
next
  case (Cons e es)
  then obtain h1 where s: "step h e = Some h1" and r: "run h1 es = Some h'"
    by (auto split: option.splits)
  from Cons.IH[OF r] have "0 \<le> received es" .
  with s show ?case
    by (cases e) (auto split: if_splits)
qed

text \<open>
  When nothing runs between the two loops of the FeedbackSender, and fewer than
  \<open>2\<^sup>6\<^sup>4\<close> bytes are counted, the pending drain never exceeds the counter.
\<close>

lemma with_lock_invariant:
  "snapshot h = None \<Longrightarrow> uint (pending h) \<le> uint (acc h) \<Longrightarrow>
   uint (acc h) + received (with_lock cs) < 2 ^ 64 \<Longrightarrow> run h (with_lock cs) = Some h' \<Longrightarrow>
   uint (pending h') \<le> uint (acc h') \<and> snapshot h' = None"
proof (induction cs arbitrary: h)
  case Nil
  then show ?case by simp
next
  case (Cons c cs)
  show ?case
  proof (cases c)
    case (Recv v)
    from Cons.prems(4) have n: "0 < v" "v \<le> RCV_BUF_LEN"
      by (auto simp: Recv split: if_splits option.splits)
    define h1 where "h1 = h\<lparr>acc := acc h + word_of_int v\<rparr>"
    have r: "run h (with_lock (c # cs)) = run h1 (with_lock cs)"
      using n by (simp add: h1_def Recv)
    with Cons.prems(4) have r1: "run h1 (with_lock cs) = Some h'" by simp
    from received_nonneg[OF r1] have rec: "0 \<le> received (with_lock cs)" .
    have small: "uint (acc h) + v < 2 ^ 64"
      using Cons.prems(3) rec by (simp add: Recv)
    have "uint (acc h1) = (uint (acc h) + v) mod 2 ^ 64"
      by (simp add: h1_def uint_word_ariths uint_word_of_int mod_add_right_eq)
    also have "\<dots> = uint (acc h) + v"
      using small n(1) by (simp add: mod_pos_pos_trivial)
    finally have a: "uint (acc h1) = uint (acc h) + v" .
    have "uint (pending h1) \<le> uint (acc h1)"
      using Cons.prems(2) n(1) a by (simp add: h1_def)
    moreover have "snapshot h1 = None" using Cons.prems(1) by (simp add: h1_def)
    moreover have "uint (acc h1) + received (with_lock cs) < 2 ^ 64"
      using Cons.prems(3) a by (simp add: Recv)
    ultimately show ?thesis using Cons.IH[of h1] r1 by simp
  next
    case Drain
    define h1 where "h1 = (if pending h > 0 then h\<lparr>acc := acc h - ucast (pending h), pending := 0\<rparr> else h)"
    have r: "run h (with_lock (c # cs)) = run h1 (with_lock cs)"
      by (simp add: h1_def Drain)
    with Cons.prems(4) have r1: "run h1 (with_lock cs) = Some h'" by simp
    have "uint (pending h) < 2 ^ 32"
      using uint_lt2p[of "pending h"] by simp
    then have u: "uint (ucast (pending h) :: u64) = uint (pending h)"
      by (simp add: unsigned_ucast_eq take_bit_int_eq_self)
    have "uint (ucast (pending h) :: u64) \<le> uint (acc h)"
      using Cons.prems(2) u by simp
    then have "uint (acc h - ucast (pending h)) = uint (acc h) - uint (ucast (pending h) :: u64)"
      by (rule uint_sub_lem[THEN iffD1])
    then have a: "uint (acc h1) \<le> uint (acc h)"
      by (simp add: h1_def u)
    have "uint (pending h1) \<le> uint (acc h1)"
      using Cons.prems(2) by (simp add: h1_def)
    moreover have "snapshot h1 = None" using Cons.prems(1) by (simp add: h1_def)
    moreover have "uint (acc h1) + received (with_lock cs) < 2 ^ 64"
      using Cons.prems(3) a by (simp add: Drain)
    ultimately show ?thesis using Cons.IH[of h1] r1 by simp
  next
    case Feedback
    define h1 where "h1 = h\<lparr>pending := ucast (acc h), snapshot := None\<rparr>"
    have r: "run h (with_lock (c # cs)) = run h1 (with_lock cs)"
      by (simp add: h1_def Feedback)
    with Cons.prems(4) have r1: "run h1 (with_lock cs) = Some h'" by simp
    have "uint (pending h1) \<le> uint (acc h1)"
      by (simp add: h1_def uint_ucast_le)
    moreover have "snapshot h1 = None" by (simp add: h1_def)
    moreover have "uint (acc h1) + received (with_lock cs) < 2 ^ 64"
      using Cons.prems(3) by (simp add: h1_def Feedback)
    ultimately show ?thesis using Cons.IH[of h1] r1 by simp
  qed
qed


text \<open>
  C3 on the schedule \<open>late_drain\<close>: every step is one the code can take, and the state
  reached has a pending drain of 150 against a counter of 50.
\<close>

theorem late_drain_pending_exceeds_counter:
  "run handoff_init late_drain = Some \<lparr>acc = 50, pending = 150, snapshot = None\<rparr>"
  by (simp add: late_drain_def handoff_init_def RCV_BUF_LEN_def)

text \<open>
  C2 on the same schedule followed by the worker's next drain: 150 bytes received,
  250 subtracted, and the counter wraps to \<open>2\<^sup>6\<^sup>4 - 100\<close>.
\<close>

theorem late_drain_counter_wraps:
  "run handoff_init (late_drain @ [WorkerDrain]) =
     Some \<lparr>acc = 18446744073709551516, pending = 0, snapshot = None\<rparr> \<and>
   received (late_drain @ [WorkerDrain]) = 150 \<and>
   drained handoff_init (late_drain @ [WorkerDrain]) = 250"
  by (simp add: late_drain_def handoff_init_def RCV_BUF_LEN_def)

end
